theory Spec2Isabelle
  imports Main
begin

section \<open>Exceptions\<close>

text \<open>
  Every exception of the Python source is a value.  \<open>AttributeError\<close>, \<open>TypeError\<close>,
  \<open>FieldError\<close>, \<open>IndexError\<close>, \<open>UnboundLocalError\<close>, \<open>DoesNotExist\<close> and
  \<open>MultipleObjectsReturned\<close> are raised by the interpreter and the object-relational
  mapper, \<open>PyException\<close> is the plain
  \<^verbatim>\<open>Exception(msg)\<close> that \<^verbatim>\<open>run_cmd\<close> and \<^verbatim>\<open>start_new\<close> raise themselves,
  \<open>CommandFailed\<close> is what the local \<^verbatim>\<open>utils.run_cmd\<close> raises (models.py catches it at
  line 1034), and \<open>External\<close> stands for whatever a collaborator (ssh transport, cloud
  client) raises.
\<close>

datatype error =
    AttributeError string
  | TypeError
  | FieldError string
  | IndexError
  | UnboundLocalError string
  | DoesNotExist
  | MultipleObjectsReturned
  | PyException string
  | CommandFailed string
  | External string

section \<open>Data model\<close>

text \<open>The state constants of \<^verbatim>\<open>BuildRecord\<close> (models.py 391--398).\<close>

definition BR_BUILDING :: int where "BR_BUILDING = 1"
definition SUCCESFULLY_BUILT :: int where "SUCCESFULLY_BUILT = 2"
definition CHROOT_PROBLEM :: int where "CHROOT_PROBLEM = 3"
definition BUILD_FOR_SUPERSEDED_SOURCE :: int where "BUILD_FOR_SUPERSEDED_SOURCE = 4"
definition FAILED_TO_BUILD :: int where "FAILED_TO_BUILD = 5"
definition DEPENDENCY_WAIT :: int where "DEPENDENCY_WAIT = 6"
definition FAILED_TO_UPLOAD :: int where "FAILED_TO_UPLOAD = 7"
definition NEEDS_BUILDING :: int where "NEEDS_BUILDING = 8"

text \<open>The state constants of \<^verbatim>\<open>BuildNode\<close> (models.py 524--529).\<close>

definition NEW :: int where "NEW = 0"
definition BOOTING :: int where "BOOTING = 1"
definition PREPARING :: int where "PREPARING = 2"
definition READY :: int where "READY = 3"
definition BN_BUILDING :: int where "BN_BUILDING = 4"
definition SHUTTING_DOWN :: int where "SHUTTING_DOWN = 5"

text \<open>
  \<^verbatim>\<open>Architecture\<close> is reached from a build record through a foreign key; the two
  attributes that \<^verbatim>\<open>build\<close> reads travel with the record.
\<close>

record architecture_row =
  arch_name :: string
  builds_arch_all :: bool

text \<open>
  \<^verbatim>\<open>BuildRecord\<close> declares no primary key, so the mapper gives it the automatic
  integer column \<open>id\<close>.  \<open>build_node\<close> is a nullable foreign key: it holds the primary
  key of a \<^verbatim>\<open>BuildNode\<close>, which is that node's name.
\<close>

record build_record =
  br_id :: nat
  source_package_name :: string
  version :: string
  architecture :: architecture_row
  br_state :: int
  priority :: int
  series :: string
  build_node :: "string option"
  created :: nat

text \<open>
  \<^verbatim>\<open>BuildNode\<close> declares \<^verbatim>\<open>name = models.CharField(max_length=200, primary_key=True)\<close>
  (models.py 540): the name is the primary key and there is no \<open>id\<close> column.
\<close>

record build_node_row =
  bn_name :: string
  bn_cloud :: string
  cloud_node_id :: string
  bn_state :: int
  signing_key_id :: string

record cloud_row =
  cloud_name :: string
  endpoint :: string
  user_name :: string
  tenant_name :: string
  password :: string
  region :: string
  flavor_name :: string
  image_name :: string

record key_pair =
  kp_id :: nat
  kp_cloud :: string
  kp_name :: string
  private_key :: string
  public_key :: string

text \<open>The durable store: one list of rows per table, in the table's own order.\<close>

record store =
  build_records :: "build_record list"
  build_nodes :: "build_node_row list"
  key_pairs :: "key_pair list"
  clouds :: "cloud_row list"

section \<open>BuildRecord: state update, pending builds, claiming\<close>

text \<open>
  \<^verbatim>\<open>BuildRecord.update_state\<close> (models.py 432--435): an UPDATE of the column \<open>state\<close>
  restricted to the row whose id is \<open>self.id\<close>, then the same assignment on the cached
  object.  The result is the new store and the new cached object.
\<close>

definition BuildRecord_update_state ::
  "store \<Rightarrow> build_record \<Rightarrow> int \<Rightarrow> (error + unit) \<times> store \<times> build_record" where
  "BuildRecord_update_state st self new_state =
     (Inr (),
      st\<lparr>build_records :=
           map (\<lambda>r. if br_id r = br_id self then r\<lparr>br_state := new_state\<rparr> else r)
               (build_records st)\<rparr>,
      self\<lparr>br_state := new_state\<rparr>)"

text \<open>\<^verbatim>\<open>BuildRecord.pending_builds\<close> (models.py 437--440).\<close>

definition pending_builds :: "store \<Rightarrow> build_record list" where
  "pending_builds st =
     filter (\<lambda>r. br_state r = NEEDS_BUILDING \<and> build_node r = None) (build_records st)"

definition pending_build_count :: "store \<Rightarrow> nat" where
  "pending_build_count st = length (pending_builds st)"

text \<open>
  \<^verbatim>\<open>order_by('-priority')\<close>: descending priority.  The database leaves the order of
  equal priorities open; the model keeps them in table order (a stable sort).
\<close>

definition order_by_priority_desc :: "build_record list \<Rightarrow> build_record list" where
  "order_by_priority_desc rs = sort_key (\<lambda>r. - priority r) rs"

text \<open>
  The conditional update of \<^verbatim>\<open>pick_build\<close> (models.py 466--468):
  \<^verbatim>\<open>filter(id=next_build.id, build_node__isnull=True).update(build_node=build_node)\<close>.
  \<open>claim_matches\<close> is the number of rows the filter matches, which the update returns;
  \<open>claim_update\<close> is the store after it.
\<close>

definition claim_matches :: "store \<Rightarrow> nat \<Rightarrow> nat" where
  "claim_matches st i =
     length (filter (\<lambda>r. br_id r = i \<and> build_node r = None) (build_records st))"

definition claim_update :: "store \<Rightarrow> nat \<Rightarrow> build_node_row \<Rightarrow> store" where
  "claim_update st i node =
     st\<lparr>build_records :=
          map (\<lambda>r. if br_id r = i \<and> build_node r = None
                    then r\<lparr>build_node := Some (bn_name node)\<rparr> else r)
              (build_records st)\<rparr>"

text \<open>\<^verbatim>\<open>cls.objects.get(id=...)\<close>: exactly one row, or an exception.\<close>

definition get_by_id :: "store \<Rightarrow> nat \<Rightarrow> error + build_record" where
  "get_by_id st i =
     (case filter (\<lambda>r. br_id r = i) (build_records st) of
        [] \<Rightarrow> Inl DoesNotExist
      | [r] \<Rightarrow> Inr r
      | _ \<Rightarrow> Inl MultipleObjectsReturned)"

text \<open>
  \<^verbatim>\<open>BuildRecord.pick_build\<close> (models.py 454--474) run by a single caller.  The
  \<^verbatim>\<open>while True\<close> loop is the recursion; \<^verbatim>\<open>builds.order_by('-priority')[0]\<close> raising
  \<^verbatim>\<open>IndexError\<close> is the empty case of the list.
\<close>

function pick_build ::
  "store \<Rightarrow> build_node_row \<Rightarrow> (error + build_record option) \<times> store" where
  "pick_build st node =
     (case order_by_priority_desc (pending_builds st) of
        [] \<Rightarrow> (Inr None, st)
      | next_build # _ \<Rightarrow>
          (let matches = claim_matches st (br_id next_build);
               st' = claim_update st (br_id next_build) node
           in if matches \<noteq> 1 then pick_build st' node
              else (map_sum id Some (get_by_id st' (br_id next_build)), st')))"
  by pat_completeness auto

definition unclaimed :: "store \<Rightarrow> nat" where
  "unclaimed st = length (filter (\<lambda>r. build_node r = None) (build_records st))"

lemma head_order_by_in_pending:
  "order_by_priority_desc (pending_builds st) = r # rs \<Longrightarrow> r \<in> set (pending_builds st)"
  by (metis list.set_intros(1) order_by_priority_desc_def set_sort)

lemma claim_update_unclaimed:
  assumes "r \<in> set (build_records st)" "build_node r = None"
  shows "unclaimed (claim_update st (br_id r) node) < unclaimed st"
proof -
  let ?g = "\<lambda>x. if br_id x = br_id r \<and> build_node x = None
                 then x\<lparr>build_node := Some (bn_name node)\<rparr> else x"
  let ?P = "\<lambda>x. build_node x = None"
  have eq: "filter ?P (map ?g xs) = filter (\<lambda>x. ?P x \<and> br_id x \<noteq> br_id r) xs" for xs
    by (induction xs) auto
  have "r \<in> set (filter ?P (build_records st))"
    using assms by simp
  then have "length (filter (\<lambda>x. br_id x \<noteq> br_id r) (filter ?P (build_records st)))
          < length (filter ?P (build_records st))"
    by (rule length_filter_less) simp
  then have "length (filter (\<lambda>x. ?P x \<and> br_id x \<noteq> br_id r) (build_records st))
          < length (filter ?P (build_records st))"
    by (simp add: conj_commute)
  then show ?thesis
    by (simp add: unclaimed_def claim_update_def eq)
qed

termination pick_build
proof (relation "measure (\<lambda>(st, node). unclaimed st)", goal_cases)
  case 1
  show ?case by simp
next
  case (2 st node next_build rs matches st')
  then have "next_build \<in> set (pending_builds st)"
    using head_order_by_in_pending by blast
  then have "next_build \<in> set (build_records st)" "build_node next_build = None"
    by (auto simp: pending_builds_def)
  then show ?case
    using 2 claim_update_unclaimed by simp
qed

declare pick_build.simps [simp del]

section \<open>Concurrent callers of pick_build\<close>

text \<open>
  Several callers run \<^verbatim>\<open>pick_build\<close> against the same store.  Each statement that
  reaches the database is one atomic step: the SELECT behind
  \<^verbatim>\<open>builds.order_by('-priority')[0]\<close>, the conditional UPDATE, and the final
  \<^verbatim>\<open>get\<close>.  A caller is at one of these points of the loop, or it has returned or
  raised.
\<close>

datatype pc =
    Scanning
  | Chosen nat
  | Claimed nat
  | Returned "build_record option"
  | Raised error

record caller =
  caller_node :: build_node_row
  caller_pc :: pc

text \<open>One statement of one caller, following models.py 457--474 line by line.\<close>

definition caller_step :: "store \<Rightarrow> caller \<Rightarrow> store \<times> caller" where
  "caller_step st c =
     (case caller_pc c of
        Scanning \<Rightarrow>
          (case order_by_priority_desc (pending_builds st) of
             [] \<Rightarrow> (st, c\<lparr>caller_pc := Returned None\<rparr>)
           | next_build # _ \<Rightarrow> (st, c\<lparr>caller_pc := Chosen (br_id next_build)\<rparr>))
      | Chosen i \<Rightarrow>
          (let matches = claim_matches st i;
               st' = claim_update st i (caller_node c)
           in if matches \<noteq> 1 then (st', c\<lparr>caller_pc := Scanning\<rparr>)
              else (st', c\<lparr>caller_pc := Claimed i\<rparr>))
      | Claimed i \<Rightarrow>
          (case get_by_id st i of
             Inl e \<Rightarrow> (st, c\<lparr>caller_pc := Raised e\<rparr>)
           | Inr r \<Rightarrow> (st, c\<lparr>caller_pc := Returned (Some r)\<rparr>))
      | Returned r \<Rightarrow> (st, c)
      | Raised e \<Rightarrow> (st, c))"

text \<open>
  The scheduler picks which caller moves next; an interleaving is the list of its
  picks.  A pick of a caller that has finished, or of no caller, changes nothing.
\<close>

definition pick_step :: "nat \<Rightarrow> store \<times> caller list \<Rightarrow> store \<times> caller list" where
  "pick_step i cfg =
     (case cfg of (st, cs) \<Rightarrow>
        if i < length cs
        then (case caller_step st (cs ! i) of (st', c') \<Rightarrow> (st', cs[i := c']))
        else (st, cs))"

definition interleave :: "nat list \<Rightarrow> store \<times> caller list \<Rightarrow> store \<times> caller list" where
  "interleave sched cfg = foldl (\<lambda>c i. pick_step i c) cfg sched"

text \<open>The record a caller has won: the one its conditional update matched.\<close>

fun won :: "pc \<Rightarrow> nat option" where
  "won (Claimed i) = Some i"
| "won (Returned (Some r)) = Some (br_id r)"
| "won _ = None"

text \<open>
  The invariant of the interleaved runs: ids and caller nodes are unique, a record points
  at a caller's node exactly when that caller has won it, and a won record exists.
\<close>

definition claim_inv :: "store \<Rightarrow> caller list \<Rightarrow> bool" where
  "claim_inv st cs \<longleftrightarrow>
     distinct (map br_id (build_records st)) \<and>
     distinct (map (\<lambda>c. bn_name (caller_node c)) cs) \<and>
     (\<forall>r \<in> set (build_records st). \<forall>c \<in> set cs.
        (build_node r = Some (bn_name (caller_node c))) = (won (caller_pc c) = Some (br_id r))) \<and>
     (\<forall>c \<in> set cs. \<forall>a. won (caller_pc c) = Some a \<longrightarrow> a \<in> br_id ` set (build_records st))"

section \<open>The world outside the store\<close>

text \<open>
  The node, the cloud provider, the local keyring and the random number generator are not
  part of the program.  Their answers are given by a \<open>world\<close>: the answer to the n-th
  call the program makes to the outside, counted by \<open>tick\<close>.  A theorem that holds for
  every world holds whatever the outside answers.  The answer to the creation of a
  server may depend on the name and the key name the program asks for.

  What a channel delivers to one pass of the \<^verbatim>\<open>select\<close> loop of \<^verbatim>\<open>run_cmd\<close>
  (models.py 800--813): nothing within the second (\<open>Idle\<close>), a chunk of output
  (\<open>Data\<close>), or, with nothing left to read, the exit status (\<open>Exit\<close>).
\<close>

datatype chan_event = Idle | Data string | Exit int

text \<open>
  What opening the session meets: \<^verbatim>\<open>self.ip\<close> raises, or the connection does, or a
  channel is there and delivers the events listed, then stays silent.
\<close>

datatype ssh_reply = NoAddress error | NoConnection error | Channel "chan_event list"

record world =
  USE_FLOATING_IPS :: bool
  BASE_URL :: string
  ssh :: "nat \<Rightarrow> ssh_reply"
  local_cmd :: "nat \<Rightarrow> error + string"
  cloud_call :: "nat \<Rightarrow> error option"
  keypairs_list :: "nat \<Rightarrow> error + string list"
  keypairs_create :: "nat \<Rightarrow> error + string \<times> string"
  servers_list :: "nat \<Rightarrow> error + string list"
  servers_create :: "nat \<Rightarrow> string \<Rightarrow> string \<Rightarrow> error + string"
  randint :: "nat \<Rightarrow> nat"

text \<open>
  The state the program runs in: the store, the number of calls made to the outside, the
  seconds spent in \<^verbatim>\<open>time.sleep\<close>, and the lines that \<^verbatim>\<open>_run_cmd\<close> gave to its
  logger.
\<close>

record sys =
  db :: store
  tick :: nat
  slept :: nat
  logged :: "string list"

text \<open>A call to the cloud client, and a call of the local \<^verbatim>\<open>utils.run_cmd\<close>.\<close>

definition cloud_do :: "world \<Rightarrow> sys \<Rightarrow> (error + unit) \<times> sys" where
  "cloud_do w s =
     ((case cloud_call w (tick s) of Some e \<Rightarrow> Inl e | None \<Rightarrow> Inr ()),
      s\<lparr>tick := tick s + 1\<rparr>)"

definition local_do :: "world \<Rightarrow> sys \<Rightarrow> (error + string) \<times> sys" where
  "local_do w s = (local_cmd w (tick s), s\<lparr>tick := tick s + 1\<rparr>)"

text \<open>Sequencing: an exception ends the sequence, and \<open>None\<close> is a call that never returns.\<close>

definition and_then ::
  "(error + 'a) \<times> sys \<Rightarrow> ('a \<Rightarrow> sys \<Rightarrow> (error + 'b) \<times> sys) \<Rightarrow> (error + 'b) \<times> sys" where
  "and_then m f = (case m of (Inl e, s) \<Rightarrow> (Inl e, s) | (Inr a, s) \<Rightarrow> f a s)"

definition seq ::
  "((error + 'a) \<times> sys) option \<Rightarrow> ('a \<Rightarrow> sys \<Rightarrow> ((error + 'b) \<times> sys) option)
     \<Rightarrow> ((error + 'b) \<times> sys) option" where
  "seq m f =
     (case m of
        None \<Rightarrow> None
      | Some (Inl e, s) \<Rightarrow> Some (Inl e, s)
      | Some (Inr a, s) \<Rightarrow> f a s)"

section \<open>Remote execution\<close>

text \<open>
  The loop of \<^verbatim>\<open>run_cmd\<close> (models.py 800--813) over the events of the channel.  The
  result is the list of chunks the generator yields and how it ends: \<open>Some (Inr ())\<close>
  when it is exhausted, \<open>Some (Inl e)\<close> when it raises, \<open>None\<close> when the channel stays
  silent for ever and the loop never ends.
\<close>

fun run_cmd_loop :: "string \<Rightarrow> chan_event list \<Rightarrow> string list \<times> (error + unit) option" where
  "run_cmd_loop cmd [] = ([], None)"
| "run_cmd_loop cmd (Idle # es) = run_cmd_loop cmd es"
| "run_cmd_loop cmd (Data s # es) =
     (if length s = 0 then ([], Some (Inr ()))
      else (case run_cmd_loop cmd es of (ys, r) \<Rightarrow> (s # ys, r)))"
| "run_cmd_loop cmd (Exit status # es) =
     (if status \<noteq> 0 then ([], Some (Inl (PyException (''Command '' @ cmd @ '' failed''))))
      else ([], Some (Inr ())))"

text \<open>
  \<^verbatim>\<open>BuildNode.keypair\<close> (models.py 771--773): the first key pair cached for the node's
  cloud; \<^verbatim>\<open>[0]\<close> on an empty query set raises \<^verbatim>\<open>IndexError\<close>.
\<close>

definition keypair :: "store \<Rightarrow> build_node_row \<Rightarrow> error + key_pair" where
  "keypair st self =
     (case filter (\<lambda>k. kp_cloud k = bn_cloud self) (key_pairs st) of
        [] \<Rightarrow> Inl IndexError
      | k # _ \<Rightarrow> Inr k)"

text \<open>
  \<^verbatim>\<open>BuildNode.run_cmd\<close> (models.py 787--815).  \<^verbatim>\<open>ssh_client\<close> evaluates
  \<^verbatim>\<open>self.ip\<close>, then the private key of the cached key pair, then connects.
\<close>

definition run_cmd ::
  "world \<Rightarrow> sys \<Rightarrow> build_node_row \<Rightarrow> string
     \<Rightarrow> (string list \<times> (error + unit) option) \<times> sys" where
  "run_cmd w s self cmd =
     (let s' = s\<lparr>tick := tick s + 1\<rparr> in
      case ssh w (tick s) of
        NoAddress e \<Rightarrow> (([], Some (Inl e)), s')
      | NoConnection e \<Rightarrow>
          (case keypair (db s) self of
             Inl e' \<Rightarrow> (([], Some (Inl e')), s')
           | Inr k \<Rightarrow> (([], Some (Inl e)), s'))
      | Channel es \<Rightarrow>
          (case keypair (db s) self of
             Inl e' \<Rightarrow> (([], Some (Inl e')), s')
           | Inr k \<Rightarrow> (run_cmd_loop cmd es, s')))"

text \<open>
  The logging of \<^verbatim>\<open>_run_cmd\<close> (models.py 551--558): \<^verbatim>\<open>log\<close> formats a line with
  the node's name padded to 15 columns; \<^verbatim>\<open>log_whole_lines\<close> logs every complete line
  of the buffer and returns what follows the last newline.
\<close>

definition log_line :: "string \<Rightarrow> string \<Rightarrow> string" where
  "log_line name s = name @ replicate (15 - length name) CHR '' '' @ '': '' @ s"

lemma length_after_newline:
  "CHR 0x0A \<in> set lbuf \<Longrightarrow> length (tl (dropWhile (\<lambda>c. c \<noteq> CHR 0x0A) lbuf)) < length lbuf"
proof (induction lbuf)
  case Nil
  then show ?case by simp
next
  case (Cons a lbuf)
  show ?case
  proof (cases "a = CHR 0x0A")
    case True
    then show ?thesis by simp
  next
    case False
    then have "CHR 0x0A \<in> set lbuf" using Cons.prems by simp
    then show ?thesis using Cons.IH False by simp
  qed
qed

function log_whole_lines :: "string \<Rightarrow> string list \<times> string" where
  "log_whole_lines lbuf =
     (if CHR 0x0A \<in> set lbuf
      then (case log_whole_lines (tl (dropWhile (\<lambda>c. c \<noteq> CHR 0x0A) lbuf)) of
              (ls, rest) \<Rightarrow> (takeWhile (\<lambda>c. c \<noteq> CHR 0x0A) lbuf # ls, rest))
      else ([], lbuf))"
  by pat_completeness auto
termination log_whole_lines
proof (relation "measure length", goal_cases)
  case 1
  show ?case by simp
next
  case (2 lbuf)
  then show ?case using length_after_newline[of lbuf] by simp
qed

declare log_whole_lines.simps [simp del]

text \<open>
  The \<^verbatim>\<open>for\<close> loop of \<^verbatim>\<open>_run_cmd\<close> (models.py 562--565) over the chunks the
  generator yields: \<open>out\<close> and \<open>lbuf\<close> grow by the chunk, the complete lines are logged.
\<close>

fun consume ::
  "string \<Rightarrow> string list \<Rightarrow> string \<Rightarrow> string \<Rightarrow> string list \<Rightarrow> string \<times> string \<times> string list" where
  "consume name [] out lbuf lg = (out, lbuf, lg)"
| "consume name (data # ds) out lbuf lg =
     (case log_whole_lines (lbuf @ data) of
        (ls, lbuf') \<Rightarrow> consume name ds (out @ data) lbuf' (lg @ map (log_line name) ls))"

text \<open>
  \<^verbatim>\<open>BuildNode._run_cmd\<close> (models.py 550--569).  When the generator raises, the
  exception leaves \<^verbatim>\<open>_run_cmd\<close> and \<open>out\<close> is not returned; the lines logged so far
  stay logged.
\<close>

definition run_cmd_logged ::
  "world \<Rightarrow> sys \<Rightarrow> build_node_row \<Rightarrow> string \<Rightarrow> ((error + string) \<times> sys) option" where
  "run_cmd_logged w s self cmd =
     (case run_cmd w s self cmd of
        ((chunks, ending), s1) \<Rightarrow>
          (case consume (bn_name self) chunks [] [] (logged s1) of
             (out, lbuf, lg) \<Rightarrow>
               (case ending of
                  None \<Rightarrow> None
                | Some (Inl e) \<Rightarrow> Some (Inl e, s1\<lparr>logged := lg\<rparr>)
                | Some (Inr u) \<Rightarrow>
                    (case log_whole_lines lbuf of
                       (ls, lbuf') \<Rightarrow>
                         Some (Inr out,
                               s1\<lparr>logged := lg @ map (log_line (bn_name self)) ls
                                               @ [log_line (bn_name self) lbuf']\<rparr>)))))"

text \<open>
  What a list of events holds: the chunks delivered, in order, and whether every event
  is output still under way.  \<^verbatim>\<open>recv_ready()\<close> is true only with data in the buffer,
  so a chunk read after it is non-empty; the source still tests \<^verbatim>\<open>len(s) == 0\<close>.
\<close>

fun chunks_of :: "chan_event list \<Rightarrow> string list" where
  "chunks_of [] = []"
| "chunks_of (Data d # es) = d # chunks_of es"
| "chunks_of (e # es) = chunks_of es"

fun is_output :: "chan_event \<Rightarrow> bool" where
  "is_output Idle = True"
| "is_output (Data d) = (d \<noteq> [])"
| "is_output (Exit status) = False"

text \<open>The node does not accept the connection: no address yet, or the connection fails.\<close>

fun unreachable :: "ssh_reply \<Rightarrow> bool" where
  "unreachable (NoAddress e) = True"
| "unreachable (NoConnection e) = True"
| "unreachable (Channel es) = False"

section \<open>BuildNode: state update, save, teardown\<close>

text \<open>
  The attribute \<open>id\<close> of a \<^verbatim>\<open>BuildNode\<close> object.  The class declares \<open>name\<close> as its
  primary key (models.py 540), so the mapper adds no automatic \<open>id\<close> field: the
  attributes of an instance are \<open>name\<close>, \<open>cloud\<close>, \<open>cloud_node_id\<close>, \<open>state\<close>,
  \<open>signing_key_id\<close> and \<open>pk\<close>, and reading \<open>self.id\<close> raises \<^verbatim>\<open>AttributeError\<close>.
  (\<^verbatim>\<open>BuildRecord\<close> declares no primary key and has the automatic \<open>id\<close>, \<open>br_id\<close>
  above; \<^verbatim>\<open>Series.save\<close>, models.py 218--219, goes through \<open>pk\<close>.)
\<close>

definition BuildNode_id :: "build_node_row \<Rightarrow> error + nat" where
  "BuildNode_id self = Inl (AttributeError ''id'')"

text \<open>
  \<^verbatim>\<open>BuildNode.update_state\<close> (models.py 571--574), the same two statements as
  \<^verbatim>\<open>BuildRecord.update_state\<close>:
  \<^verbatim>\<open>self.__class__.objects.filter(id=self.id).update(state=new_state)\<close>, then
  \<^verbatim>\<open>self.state = new_state\<close>.  The argument \<open>self.id\<close> is evaluated first.
\<close>

definition BuildNode_update_state ::
  "store \<Rightarrow> build_node_row \<Rightarrow> int \<Rightarrow> (error + unit) \<times> store \<times> build_node_row" where
  "BuildNode_update_state st self new_state =
     (case BuildNode_id self of
        Inl e \<Rightarrow> (Inl e, st, self)
      | Inr i \<Rightarrow>
          (Inr (),
           st\<lparr>build_nodes :=
                map (\<lambda>n. if BuildNode_id n = Inr i then n\<lparr>bn_state := new_state\<rparr> else n)
                    (build_nodes st)\<rparr>,
           self\<lparr>bn_state := new_state\<rparr>))"

text \<open>
  \<^verbatim>\<open>self.save()\<close> of a \<^verbatim>\<open>BuildNode\<close>: the row with this primary key is replaced
  by the object's fields, or the object is inserted when there is no such row.
\<close>

definition BuildNode_save :: "store \<Rightarrow> build_node_row \<Rightarrow> store" where
  "BuildNode_save st self =
     (if bn_name self \<in> set (map bn_name (build_nodes st))
      then st\<lparr>build_nodes :=
                map (\<lambda>n. if bn_name n = bn_name self then self else n) (build_nodes st)\<rparr>
      else st\<lparr>build_nodes := build_nodes st @ [self]\<rparr>)"

text \<open>
  \<^verbatim>\<open>self.buildrecord_set.all().update(build_node=None)\<close> (models.py 766): every
  record whose foreign key is this node's name gets a null reference.
\<close>

definition clear_node_refs :: "store \<Rightarrow> string \<Rightarrow> store" where
  "clear_node_refs st n =
     st\<lparr>build_records :=
          map (\<lambda>r. if build_node r = Some n then r\<lparr>build_node := None\<rparr> else r)
              (build_records st)\<rparr>"

text \<open>
  What \<^verbatim>\<open>super(BuildNode, self).delete()\<close> (models.py 769) does to the store: the
  row of that name goes, and with the mapper's default \<^verbatim>\<open>on_delete\<close> (cascade) so does
  every record that still refers to it.
\<close>

definition Model_delete :: "store \<Rightarrow> string \<Rightarrow> store" where
  "Model_delete st n =
     st\<lparr>build_records := filter (\<lambda>r. build_node r \<noteq> Some n) (build_records st),
        build_nodes := filter (\<lambda>x. bn_name x \<noteq> n) (build_nodes st)\<rparr>"

text \<open>
  A \<^verbatim>\<open>BuildNode\<close> object in memory, as \<^verbatim>\<open>delete\<close> sees it.  Its attributes are the
  fields of its row, but \<open>name\<close> can be \<^verbatim>\<open>None\<close>: the last thing the mapper's
  \<^verbatim>\<open>Model.delete()\<close> does is to set the primary key attribute of the deleted instance
  to \<^verbatim>\<open>None\<close>.  \<open>instance_of\<close> is the object that holds the fields of a row.
\<close>

record build_node_obj =
  o_name :: "string option"
  o_cloud :: string
  o_cloud_node_id :: string
  o_state :: int
  o_signing_key_id :: string

definition instance_of :: "build_node_row \<Rightarrow> build_node_obj" where
  "instance_of r =
     \<lparr>o_name = Some (bn_name r), o_cloud = bn_cloud r, o_cloud_node_id = cloud_node_id r,
      o_state = bn_state r, o_signing_key_id = signing_key_id r\<rparr>"

text \<open>
  A log line that formats the node with \<^verbatim>\<open>%s\<close>.  The text is built before the logger
  is called, through \<^verbatim>\<open>__unicode__\<close> (models.py 547--548), which returns
  \<^verbatim>\<open>self.name\<close>: on an object whose name is \<^verbatim>\<open>None\<close> the conversion raises
  \<^verbatim>\<open>TypeError\<close>.  The value is the text of the node, which is its name.  What the log
  lines of \<^verbatim>\<open>delete\<close> write is not kept.
\<close>

definition unicode_self :: "build_node_obj \<Rightarrow> sys \<Rightarrow> (error + string) \<times> sys" where
  "unicode_self self s =
     (case o_name self of None \<Rightarrow> (Inl TypeError, s) | Some n \<Rightarrow> (Inr n, s))"

text \<open>
  The log line of models.py 750--751,
  \<^verbatim>\<open>'Deleting floating ip %s on cloud %s.' % (floating_ip, self, self.cloud)\<close>: two
  conversions and three arguments, so the formatting raises \<^verbatim>\<open>TypeError\<close> whatever
  the arguments are.
\<close>

definition log_deleting_floating_ip :: "sys \<Rightarrow> (error + unit) \<times> sys" where
  "log_deleting_floating_ip s = (Inl TypeError, s)"

text \<open>A run of \<open>n\<close> calls to the cloud client; the first that raises ends the run.\<close>

fun cloud_calls :: "nat \<Rightarrow> world \<Rightarrow> sys \<Rightarrow> (error + unit) \<times> sys" where
  "cloud_calls 0 w s = (Inr (), s)"
| "cloud_calls (Suc n) w s = and_then (cloud_do w s) (\<lambda>u. cloud_calls n w)"

text \<open>
  The branch of \<^verbatim>\<open>delete\<close> for floating addresses (models.py 744--752):
  \<^verbatim>\<open>self.ip\<close> and \<^verbatim>\<open>floating_ips.find\<close> are two calls to the cloud, the log line
  of 747 formats the node, \<^verbatim>\<open>self.cloud_server\<close> and \<^verbatim>\<open>remove_floating_ip\<close> are
  two more calls, then comes the log line of 750 and, after it, \<^verbatim>\<open>ref.delete()\<close>.
\<close>

definition release_floating_ip :: "world \<Rightarrow> sys \<Rightarrow> build_node_obj \<Rightarrow> (error + unit) \<times> sys" where
  "release_floating_ip w s self =
     and_then (cloud_calls 2 w s)
       (\<lambda>u s1. and_then (unicode_self self s1)
       (\<lambda>n s2. and_then (cloud_calls 2 w s2)
       (\<lambda>u s3. and_then (log_deleting_floating_ip s3)
       (\<lambda>u s4. cloud_do w s4))))"

text \<open>
  The statements of \<^verbatim>\<open>BuildNode.delete\<close> before its two writes (models.py
  744--762).  After the branch for floating addresses the log line of 754 formats the
  node; \<^verbatim>\<open>self.cloud_server\<close> and its \<^verbatim>\<open>delete()\<close> are two calls to the cloud; the
  key is removed from the local keyring when \<^verbatim>\<open>self.signing_key_id\<close> is a non-empty
  string.  The value is the name of the node as the log line of 754 found it; the later
  log lines format the same object and raise nothing once that one has passed.
\<close>

definition delete_calls :: "world \<Rightarrow> sys \<Rightarrow> build_node_obj \<Rightarrow> (error + string) \<times> sys" where
  "delete_calls w s self =
     and_then (if USE_FLOATING_IPS w then release_floating_ip w s self else (Inr (), s))
       (\<lambda>u s1. and_then (unicode_self self s1)
       (\<lambda>n s2. and_then (cloud_calls 2 w s2)
       (\<lambda>u s3. and_then (if o_signing_key_id self \<noteq> []
                          then and_then (local_do w s3) (\<lambda>out s. (Inr (), s))
                          else (Inr (), s3))
       (\<lambda>u s4. (Inr n, s4)))))"

text \<open>
  \<^verbatim>\<open>BuildNode.delete\<close> (models.py 743--769): the calls, then the references are
  cleared and the row deleted, which resets the name of the object.  No statement is
  inside a \<^verbatim>\<open>try\<close>.  The result is what was raised, the state, and the object as
  the call leaves it.
\<close>

definition delete ::
  "world \<Rightarrow> sys \<Rightarrow> build_node_obj \<Rightarrow> (error + unit) \<times> sys \<times> build_node_obj" where
  "delete w s self =
     (case delete_calls w s self of
        (Inl e, s5) \<Rightarrow> (Inl e, s5, self)
      | (Inr n, s5) \<Rightarrow>
          (Inr (), s5\<lparr>db := Model_delete (clear_node_refs (db s5) n) n\<rparr>,
           self\<lparr>o_name := None\<rparr>))"

section \<open>BuildNode: prepare\<close>

text \<open>
  The connectivity wait of \<^verbatim>\<open>prepare\<close> (models.py 580--586):
  \<^verbatim>\<open>while True: try: self._run_cmd('id'); break; except Exception, e: print e;
  time.sleep(5)\<close>.  The loop has no counter and no deadline, so the function is partial:
  \<open>None\<close> is the run that never leaves the loop.  What \<^verbatim>\<open>print\<close> writes is not kept.
\<close>

partial_function (option) wait_for_node :: "world \<Rightarrow> build_node_row \<Rightarrow> sys \<Rightarrow> sys option" where
  "wait_for_node w self s =
     (case run_cmd_logged w s self ''id'' of
        None \<Rightarrow> None
      | Some (Inr out, s') \<Rightarrow> Some s'
      | Some (Inl e, s') \<Rightarrow> wait_for_node w self (s'\<lparr>slept := slept s' + 5\<rparr>))"

declare wait_for_node.simps [code]

text \<open>Python's \<^verbatim>\<open>str.split(sep)\<close> for a one-character separator.\<close>

fun split_on :: "char \<Rightarrow> string \<Rightarrow> string list" where
  "split_on c [] = [[]]"
| "split_on c (x # xs) =
     (if x = c then [] # split_on c xs
      else (case split_on c xs of [] \<Rightarrow> [[x]] | word # ws \<Rightarrow> (x # word) # ws))"

definition startswith :: "string \<Rightarrow> string \<Rightarrow> bool" where
  "startswith l p = (take (length p) l = p)"

text \<open>
  The scan of the key generator's output (models.py 606--608): the last line that starts
  with \<^verbatim>\<open>gpg: key \<close> gives \<open>key_id\<close>; with no such line \<open>key_id\<close> is never bound and
  the assignment of line 609 raises.
\<close>

fun scan_key_id :: "string list \<Rightarrow> (error + string) option \<Rightarrow> (error + string) option" where
  "scan_key_id [] key_id = key_id"
| "scan_key_id (l # ls) key_id =
     (if startswith l ''gpg: key ''
      then (case split_on CHR '' '' l of
              a # b # c # rest \<Rightarrow> scan_key_id ls (Some (Inr c))
            | _ \<Rightarrow> Some (Inl IndexError))
      else scan_key_id ls key_id)"

definition parse_key_id :: "string \<Rightarrow> error + string" where
  "parse_key_id out =
     (case scan_key_id (split_on CHR 0x0A out) None of
        None \<Rightarrow> Inl (UnboundLocalError ''key_id'')
      | Some r \<Rightarrow> r)"

fun join_lines :: "string list \<Rightarrow> string" where
  "join_lines [] = []"
| "join_lines [l] = l"
| "join_lines (l # ls) = l @ [CHR 0x0A] @ join_lines ls"

definition keygen_cmd :: "build_node_row \<Rightarrow> string" where
  "keygen_cmd self =
     join_lines ['''', '''', ''cat <<EOF > keygen.param'', ''Key-Type: 1'', ''Key-Length: 4096'',
                 ''Subkey-Type: ELG-E'', ''Subkey-Length: 4096'',
                 ''Name-Real: '' @ bn_name self @ '' signing key'', ''Expire-Date: 0'',
                 ''%commit'', ''EOF'']"

fun decimal :: "nat \<Rightarrow> string" where
  "decimal n =
     (if n < 10 then [char_of (48 + n)] else decimal (n div 10) @ [char_of (48 + n mod 10)])"

declare decimal.simps [simp del]

text \<open>
  The body of the \<^verbatim>\<open>try\<close> of \<^verbatim>\<open>prepare\<close> (models.py 580--617), in the order
  of the source: the wait, the state \<open>PREPARING\<close>, the six remote commands up to the key
  generation (\<open>prepare_install\<close>), the scan for the key id and its assignment to
  \<open>signing_key_id\<close> at line 609, the export and the local import (\<open>prepare_export\<close>),
  the state \<open>READY\<close> and the write of the repository's configuration, which is a call to
  the outside (\<open>prepare_ready\<close>).  The body returns the object as it stands when it
  ends, since the handler tears down that object.
\<close>

definition prepare_install ::
  "world \<Rightarrow> sys \<Rightarrow> build_node_row \<Rightarrow> build_record \<Rightarrow> ((error + string) \<times> sys) option" where
  "prepare_install w s self build_record =
     seq (run_cmd_logged w s self ''sudo apt-get update'')
       (\<lambda>out s. seq (run_cmd_logged w s self
             (''sudo DEBIAN_FRONTEND=noninteractive ''
                @ ''apt-get -y --force-yes install puppet''))
       (\<lambda>out s. seq (run_cmd_logged w s self
             (''sudo wget -O puppet.pp '' @ BASE_URL w @ ''/puppet/''
                @ decimal (br_id build_record) @ ''/''))
       (\<lambda>out s. seq (run_cmd_logged w s self ''sudo -H puppet apply --verbose puppet.pp'')
       (\<lambda>out s. seq (run_cmd_logged w s self (keygen_cmd self))
       (\<lambda>out s. run_cmd_logged w s self ''gpg --gen-key --batch keygen.param'')))))"

definition prepare_export ::
  "world \<Rightarrow> sys \<Rightarrow> build_node_row \<Rightarrow> ((error + string) \<times> sys) option" where
  "prepare_export w s self =
     seq (run_cmd_logged w s self (''gpg -a --export '' @ signing_key_id self))
       (\<lambda>public_key_data s. Some (local_do w s))"

definition prepare_ready ::
  "world \<Rightarrow> sys \<Rightarrow> build_node_row \<Rightarrow> (error + unit) \<times> sys \<times> build_node_row" where
  "prepare_ready w s self =
     (let self4 = self\<lparr>bn_state := READY\<rparr>;
          s5 = s\<lparr>db := BuildNode_save (db s) self4\<rparr>
      in case local_do w s5 of
           (Inl e, s6) \<Rightarrow> (Inl e, s6, self4)
         | (Inr written, s6) \<Rightarrow> (Inr (), s6, self4))"

definition prepare_key ::
  "world \<Rightarrow> sys \<Rightarrow> build_node_row \<Rightarrow> string
     \<Rightarrow> ((error + unit) \<times> sys \<times> build_node_row) option" where
  "prepare_key w s self out =
     (case parse_key_id out of
        Inl e \<Rightarrow> Some (Inl e, s, self)
      | Inr key_id \<Rightarrow>
          (let self3 = self\<lparr>signing_key_id := key_id\<rparr>
           in case prepare_export w s self3 of
                None \<Rightarrow> None
              | Some (Inl e, s4) \<Rightarrow> Some (Inl e, s4, self3)
              | Some (Inr imported, s4) \<Rightarrow> Some (prepare_ready w s4 self3)))"

definition prepare_try ::
  "world \<Rightarrow> sys \<Rightarrow> build_node_row \<Rightarrow> build_record
     \<Rightarrow> ((error + unit) \<times> sys \<times> build_node_row) option" where
  "prepare_try w s self build_record =
     (case wait_for_node w self s of
        None \<Rightarrow> None
      | Some s1 \<Rightarrow>
          (let self2 = self\<lparr>bn_state := PREPARING\<rparr>;
               s2 = s1\<lparr>db := BuildNode_save (db s1) self2\<rparr>
           in case prepare_install w s2 self2 build_record of
                None \<Rightarrow> None
              | Some (Inl e, s3) \<Rightarrow> Some (Inl e, s3, self2)
              | Some (Inr out, s3) \<Rightarrow> prepare_key w s3 self2 out))"

text \<open>
  \<^verbatim>\<open>BuildNode.prepare\<close> (models.py 576--621): the state \<open>BOOTING\<close> is saved, the body
  runs, and the handler of \<^verbatim>\<open>except Exception\<close> calls \<^verbatim>\<open>self.delete()\<close> on the
  object as the body left it.  Whatever \<^verbatim>\<open>delete\<close> raises leaves \<^verbatim>\<open>prepare\<close>.  The
  result is what was raised, the state, and the object as the call leaves it.
\<close>

definition prepare ::
  "world \<Rightarrow> sys \<Rightarrow> build_node_row \<Rightarrow> build_record
     \<Rightarrow> ((error + unit) \<times> sys \<times> build_node_obj) option" where
  "prepare w s self build_record =
     (let self1 = self\<lparr>bn_state := BOOTING\<rparr>;
          s1 = s\<lparr>db := BuildNode_save (db s) self1\<rparr>
      in case prepare_try w s1 self1 build_record of
           None \<Rightarrow> None
         | Some (Inr u, s2, self2) \<Rightarrow> Some (Inr (), s2, instance_of self2)
         | Some (Inl e, s2, self2) \<Rightarrow> Some (delete w s2 (instance_of self2)))"

section \<open>BuildNode: build\<close>

definition sbuild_cmd :: "build_node_row \<Rightarrow> build_record \<Rightarrow> string" where
  "sbuild_cmd self build_record =
     ''cd build; sbuild -d '' @ series build_record @ '' ''
       @ ''--arch='' @ arch_name (architecture build_record) @ '' ''
       @ ''-c buildchroot ''
       @ ''-n -k'' @ signing_key_id self @ '' ''
       @ (if builds_arch_all (architecture build_record) then ''-A '' else [])
       @ source_package_name build_record @ ''_'' @ version build_record"

text \<open>The body of the \<^verbatim>\<open>try\<close> of \<^verbatim>\<open>build\<close> (models.py 627--640).\<close>

definition build_try ::
  "world \<Rightarrow> sys \<Rightarrow> build_node_row \<Rightarrow> build_record \<Rightarrow> ((error + string) \<times> sys) option" where
  "build_try w s self build_record =
     seq (run_cmd_logged w s self ''mkdir build'')
       (\<lambda>out s. seq (run_cmd_logged w s self (sbuild_cmd self build_record))
       (\<lambda>out s. run_cmd_logged w s self ''cd build; dput return *.changes''))"

text \<open>
  \<^verbatim>\<open>BuildNode.build\<close> (models.py 623--645).  The two calls of \<^verbatim>\<open>update_state\<close>
  before the \<^verbatim>\<open>try\<close> and the two after it are outside any handler;
  \<^verbatim>\<open>except Exception: pass\<close> drops what the body raises.
\<close>

definition build ::
  "world \<Rightarrow> sys \<Rightarrow> build_node_row \<Rightarrow> build_record
     \<Rightarrow> ((error + unit) \<times> sys \<times> build_node_row \<times> build_record) option" where
  "build w s self build_record =
     (case BuildNode_update_state (db s) self BN_BUILDING of
        (Inl e, st1, self1) \<Rightarrow> Some (Inl e, s\<lparr>db := st1\<rparr>, self1, build_record)
      | (Inr u, st1, self1) \<Rightarrow>
          (case BuildRecord_update_state st1 build_record BR_BUILDING of
             (Inl e, st2, br2) \<Rightarrow> Some (Inl e, s\<lparr>db := st2\<rparr>, self1, br2)
           | (Inr u, st2, br2) \<Rightarrow>
               (case build_try w (s\<lparr>db := st2\<rparr>) self1 br2 of
                  None \<Rightarrow> None
                | Some (swallowed, s3) \<Rightarrow>
                    (case BuildRecord_update_state (db s3) br2 SUCCESFULLY_BUILT of
                       (Inl e, st4, br4) \<Rightarrow> Some (Inl e, s3\<lparr>db := st4\<rparr>, self1, br4)
                     | (Inr u, st4, br4) \<Rightarrow>
                         (case BuildNode_update_state st4 self1 SHUTTING_DOWN of
                            (r, st5, self5) \<Rightarrow> Some (r, s3\<lparr>db := st5\<rparr>, self5, br4))))))"

text \<open>The two writes that end \<^verbatim>\<open>delete\<close>, as one function of the store and the name.\<close>

definition teardown :: "store \<Rightarrow> string \<Rightarrow> store" where
  "teardown st n = Model_delete (clear_node_refs st n) n"

text \<open>What a run returned or raised, and the store it left, when it ended.\<close>

definition result_of :: "('a \<times> 'b) option \<Rightarrow> 'a option" where
  "result_of x = map_option fst x"

definition store_of :: "('a \<times> sys \<times> 'b) option \<Rightarrow> store option" where
  "store_of x = map_option (\<lambda>p. db (fst (snd p))) x"

section \<open>BuildNode: leasing a node\<close>












section \<open>Example data\<close>

definition mk_record :: "nat \<Rightarrow> int \<Rightarrow> int \<Rightarrow> string option \<Rightarrow> build_record" where
  "mk_record i p s n =
     \<lparr>br_id = i, source_package_name = ''nova'', version = ''1.0'',
      architecture = \<lparr>arch_name = ''amd64'', builds_arch_all = True\<rparr>,
      br_state = s, priority = p, series = ''precise'', build_node = n, created = i\<rparr>"

definition mk_node :: "string \<Rightarrow> int \<Rightarrow> string \<Rightarrow> build_node_row" where
  "mk_node n s k =
     \<lparr>bn_name = n, bn_cloud = ''cloud-a'', cloud_node_id = ''srv-'' @ n,
      bn_state = s, signing_key_id = k\<rparr>"

text \<open>
  A build of another source package: a table of build records holds each combination of
  series, package, version and architecture once (\<^verbatim>\<open>unique_together\<close>, models.py
  425--426).
\<close>

definition mk_build :: "nat \<Rightarrow> string \<Rightarrow> int \<Rightarrow> int \<Rightarrow> string option \<Rightarrow> build_record" where
  "mk_build i pkg p s n =
     \<lparr>br_id = i, source_package_name = pkg, version = ''1.0'',
      architecture = \<lparr>arch_name = ''amd64'', builds_arch_all = True\<rparr>,
      br_state = s, priority = p, series = ''precise'', build_node = n, created = i\<rparr>"

text \<open>
  Five records, in the order they were inserted: three need building and have no node
  (priorities 10, 50 and 30), one of priority 90 is built, and one of priority 70 needs
  building and already has the node \<open>buildd-3\<close>.
\<close>

definition three_pending :: store where
  "three_pending =
     \<lparr>build_records = [mk_build 1 ''nova'' 10 NEEDS_BUILDING None,
                        mk_build 2 ''glance'' 90 SUCCESFULLY_BUILT None,
                        mk_build 3 ''keystone'' 50 NEEDS_BUILDING None,
                        mk_build 4 ''cinder'' 70 NEEDS_BUILDING (Some ''buildd-3''),
                        mk_build 5 ''swift'' 30 NEEDS_BUILDING None],
      build_nodes = [mk_node ''buildd-3'' BN_BUILDING ''1F00D5A1'',
                     mk_node ''buildd-7'' NEW ''''],
      key_pairs = [], clouds = []\<rparr>"

text \<open>One pending record and two callers with fresh nodes.\<close>

definition one_pending :: store where
  "one_pending = \<lparr>build_records = [mk_record 1 10 NEEDS_BUILDING None], build_nodes = [], key_pairs = [], clouds = []\<rparr>"

definition two_callers :: "caller list" where
  "two_callers = [\<lparr>caller_node = mk_node ''buildd-1'' NEW '''', caller_pc = Scanning\<rparr>,
                  \<lparr>caller_node = mk_node ''buildd-2'' NEW '''', caller_pc = Scanning\<rparr>]"

definition won_by_first :: store where
  "won_by_first =
     \<lparr>build_records = [mk_record 1 10 NEEDS_BUILDING (Some ''buildd-1'')],
      build_nodes = [], key_pairs = [], clouds = []\<rparr>"

definition after_race :: "pc \<Rightarrow> caller list" where
  "after_race p =
     [\<lparr>caller_node = mk_node ''buildd-1'' NEW '''',
       caller_pc = Returned (Some (mk_record 1 10 NEEDS_BUILDING (Some ''buildd-1'')))\<rparr>,
      \<lparr>caller_node = mk_node ''buildd-2'' NEW '''', caller_pc = p\<rparr>]"

text \<open>
  A world in which nothing outside fails and the node refuses every connection, a store
  with one leased node, its claimed record and the key pair of its cloud, and the state
  a run starts in.
\<close>

definition quiet_world :: world where
  "quiet_world =
     \<lparr>USE_FLOATING_IPS = False, BASE_URL = ''http://repo.example.com'',
      ssh = (\<lambda>n. NoConnection (External ''connection refused'')),
      local_cmd = (\<lambda>n. Inr []),
      cloud_call = (\<lambda>n. None),
      keypairs_list = (\<lambda>n. Inr []),
      keypairs_create = (\<lambda>n. Inr (''PRIVATE'', ''PUBLIC'')),
      servers_list = (\<lambda>n. Inr []),
      servers_create = (\<lambda>n name key_name. Inr ''srv-buildd-7''),
      randint = (\<lambda>n. 6)\<rparr>"

definition cloud_a :: cloud_row where
  "cloud_a =
     \<lparr>cloud_name = ''cloud-a'', endpoint = ''https://cloud-a.example.com/v2.0'',
      user_name = ''builder'', tenant_name = ''builds'', password = ''secret'', region = '''',
      flavor_name = ''m1.small'', image_name = ''precise''\<rparr>"

definition leased :: store where
  "leased =
     \<lparr>build_records = [mk_record 1 10 NEEDS_BUILDING (Some ''buildd-7'')],
      build_nodes = [mk_node ''buildd-7'' NEW ''''],
      key_pairs = [\<lparr>kp_id = 1, kp_cloud = ''cloud-a'', kp_name = ''buildd-3'',
                    private_key = ''PRIVATE'', public_key = ''PUBLIC''\<rparr>],
      clouds = [cloud_a]\<rparr>"

definition at_start :: "store \<Rightarrow> sys" where
  "at_start st = \<lparr>db = st, tick = 0, slept = 0, logged = []\<rparr>"

text \<open>A node that refuses the first two connections and then runs every command at once.\<close>

definition slow_boot :: world where
  "slow_boot =
     quiet_world\<lparr>ssh := \<lambda>n. if n < 2 then NoConnection (External ''connection refused'')
                             else Channel [Exit 0]\<rparr>"

text \<open>
  The cloud answers the two calls of the first teardown; after that the server is gone
  and its lookup raises.
\<close>

definition server_gone :: world where
  "server_gone =
     quiet_world\<lparr>cloud_call := \<lambda>n. if n < 2 then None else Some (External ''NotFound'')\<rparr>"

definition torn_down :: store where
  "torn_down =
     \<lparr>build_records = [mk_record 1 10 NEEDS_BUILDING None],
      build_nodes = [],
      key_pairs = [\<lparr>kp_id = 1, kp_cloud = ''cloud-a'', kp_name = ''buildd-3'',
                    private_key = ''PRIVATE'', public_key = ''PUBLIC''\<rparr>],
      clouds = [cloud_a]\<rparr>"

text \<open>
  Three runs of \<^verbatim>\<open>prepare\<close>.  In \<open>boots_late\<close> the node refuses the first connection
  and then runs every command; the key generator names its key.  In \<open>apt_fails\<close> the node
  is up and the first command after the wait exits with status 100.  In
  \<open>key_never_imported\<close> the key is generated, the connection for the export fails, the
  cloud deletes the server, and the local keyring, which never saw the key, fails to
  delete it.
\<close>

definition gen_key_output :: string where
  "gen_key_output = ''gpg: key 5C1E0F2A marked as ultimately trusted'' @ [CHR 0x0A]"


definition apt_fails :: world where
  "apt_fails = quiet_world\<lparr>ssh := \<lambda>n. if n = 0 then Channel [Exit 0] else Channel [Exit 100]\<rparr>"

definition key_never_imported :: world where
  "key_never_imported =
     quiet_world\<lparr>ssh := \<lambda>n. if n = 6 then Channel [Data gen_key_output, Exit 0]
                             else if n = 7 then NoConnection (External ''connection reset'')
                             else Channel [Exit 0],
                  local_cmd := \<lambda>n. Inl (CommandFailed ''gpg --batch --yes --delete-keys'')\<rparr>"














section \<open>Verification: claiming the highest priority build\<close>

lemma filter_id_unique:
  "distinct (map br_id xs) \<Longrightarrow> r \<in> set xs \<Longrightarrow> filter (\<lambda>x. br_id x = br_id r) xs = [r]"
proof (induction xs)
  case Nil
  then show ?case by simp
next
  case (Cons a xs)
  show ?case
  proof (cases "a = r")
    case True
    have "filter (\<lambda>x. br_id x = br_id r) xs = []"
    proof -
      have "br_id r \<notin> br_id ` set xs" using Cons.prems(1) True by simp
      then have "\<forall>x \<in> set xs. br_id x \<noteq> br_id r" by (metis imageI)
      then show ?thesis by (simp add: filter_empty_conv)
    qed
    then show ?thesis using True by simp
  next
    case False
    then have "r \<in> set xs" using Cons.prems(2) by simp
    moreover have "br_id a \<noteq> br_id r"
      using Cons.prems(1) \<open>r \<in> set xs\<close> by auto
    ultimately show ?thesis using Cons by simp
  qed
qed

lemma head_order_by_max:
  assumes "order_by_priority_desc rs = r # rest"
  shows "r \<in> set rs \<and> (\<forall>r' \<in> set rs. priority r' \<le> priority r)"
proof -
  have s: "sorted (map (\<lambda>x. - priority x) (r # rest))"
    using assms sorted_sort_key[of "\<lambda>x. - priority x" rs]
    by (simp add: order_by_priority_desc_def)
  have e: "set (r # rest) = set rs"
    using assms by (metis order_by_priority_desc_def set_sort)
  from s have "\<forall>y \<in> set rest. priority y \<le> priority r" by auto
  then have "\<forall>y \<in> set (r # rest). priority y \<le> priority r" by simp
  with e show ?thesis by auto
qed

lemma claim_matches_one:
  assumes "distinct (map br_id (build_records st))" "r \<in> set (build_records st)"
    "build_node r = None"
  shows "claim_matches st (br_id r) = 1"
proof -
  have "filter (\<lambda>x. br_id x = br_id r \<and> build_node x = None) (build_records st)
        = filter (\<lambda>x. build_node x = None)
            (filter (\<lambda>x. br_id x = br_id r) (build_records st))"
    by (simp add: conj_commute)
  also have "\<dots> = [r]"
    using assms by (simp add: filter_id_unique)
  finally show ?thesis by (simp add: claim_matches_def)
qed

lemma get_by_id_claim_update:
  assumes "distinct (map br_id (build_records st))" "r \<in> set (build_records st)"
    "build_node r = None"
  shows "get_by_id (claim_update st (br_id r) node) (br_id r)
           = Inr (r\<lparr>build_node := Some (bn_name node)\<rparr>)"
proof -
  let ?g = "\<lambda>x. if br_id x = br_id r \<and> build_node x = None
                 then x\<lparr>build_node := Some (bn_name node)\<rparr> else x"
  have F: "filter (\<lambda>x. br_id x = br_id r) (map ?g xs)
             = map ?g (filter (\<lambda>x. br_id x = br_id r) xs)" for xs
    by (induction xs) auto
  have "build_records (claim_update st (br_id r) node) = map ?g (build_records st)"
    by (simp add: claim_update_def)
  then have "filter (\<lambda>x. br_id x = br_id r) (build_records (claim_update st (br_id r) node))
             = map ?g (filter (\<lambda>x. br_id x = br_id r) (build_records st))"
    by (simp only: F)
  also have "\<dots> = map ?g [r]"
    using assms(1,2) by (simp only: filter_id_unique)
  also have "\<dots> = [r\<lparr>build_node := Some (bn_name node)\<rparr>]"
    using assms(3) by simp
  finally show ?thesis by (simp add: get_by_id_def)
qed

lemma claim_update_by_id:
  assumes "distinct (map br_id (build_records st))" "r \<in> set (build_records st)"
    "build_node r = None"
  shows "claim_update st (br_id r) node =
           st\<lparr>build_records :=
                map (\<lambda>x. if br_id x = br_id r then x\<lparr>build_node := Some (bn_name node)\<rparr> else x)
                    (build_records st)\<rparr>"
proof -
  have "\<forall>x \<in> set (build_records st). br_id x = br_id r \<longrightarrow> build_node x = None"
  proof (intro ballI impI)
    fix x assume x: "x \<in> set (build_records st)" and i: "br_id x = br_id r"
    have "x = r" using assms(1) x assms(2) i by (meson distinct_map inj_onD)
    then show "build_node x = None" using assms(3) by simp
  qed
  then have "map (\<lambda>x. if br_id x = br_id r \<and> build_node x = None
                       then x\<lparr>build_node := Some (bn_name node)\<rparr> else x) (build_records st)
           = map (\<lambda>x. if br_id x = br_id r then x\<lparr>build_node := Some (bn_name node)\<rparr> else x)
                 (build_records st)"
    by (intro map_cong) auto
  then show ?thesis by (simp add: claim_update_def)
qed

text \<open>
  Claim C2.  In every store whose build records have distinct ids (the primary key):
  when no record is in state \<open>NEEDS_BUILDING\<close> with no node assigned, \<open>pick_build\<close>
  returns \<open>None\<close> and leaves the store alone.  Otherwise it claims a record \<open>r\<close> that is
  in state \<open>NEEDS_BUILDING\<close> with no node assigned and whose priority is at least that
  of every such record: it returns \<open>r\<close> with the node set, and the store is the old one
  with the node set on the row of that id and nothing else changed.  The order of the
  rows plays no part.
\<close>

theorem pick_build_highest_priority:
  assumes "distinct (map br_id (build_records st))"
  shows "((\<forall>r \<in> set (build_records st). \<not> (br_state r = NEEDS_BUILDING \<and> build_node r = None))
            \<longrightarrow> pick_build st node = (Inr None, st)) \<and>
         ((\<exists>r \<in> set (build_records st). br_state r = NEEDS_BUILDING \<and> build_node r = None)
            \<longrightarrow>
            (\<exists>r \<in> set (build_records st).
               br_state r = NEEDS_BUILDING \<and> build_node r = None \<and>
               (\<forall>r' \<in> set (build_records st).
                  br_state r' = NEEDS_BUILDING \<and> build_node r' = None
                    \<longrightarrow> priority r' \<le> priority r) \<and>
               pick_build st node =
                 (Inr (Some (r\<lparr>build_node := Some (bn_name node)\<rparr>)),
                  st\<lparr>build_records :=
                       map (\<lambda>x. if br_id x = br_id r
                                 then x\<lparr>build_node := Some (bn_name node)\<rparr> else x)
                           (build_records st)\<rparr>)))"
proof (intro conjI impI)
  assume "\<forall>r \<in> set (build_records st). \<not> (br_state r = NEEDS_BUILDING \<and> build_node r = None)"
  then have "pending_builds st = []"
    by (simp add: pending_builds_def filter_empty_conv)
  then show "pick_build st node = (Inr None, st)"
    by (simp add: pick_build.simps order_by_priority_desc_def)
next
  assume "\<exists>r \<in> set (build_records st). br_state r = NEEDS_BUILDING \<and> build_node r = None"
  then have ne: "pending_builds st \<noteq> []"
    by (simp add: pending_builds_def filter_empty_conv)
  then have "order_by_priority_desc (pending_builds st) \<noteq> []"
    unfolding order_by_priority_desc_def by (metis length_sort length_0_conv)
  then obtain r rest where o: "order_by_priority_desc (pending_builds st) = r # rest"
    by (cases "order_by_priority_desc (pending_builds st)") auto
  from head_order_by_max[OF o]
  have rin: "r \<in> set (pending_builds st)"
    and rmax: "\<forall>r' \<in> set (pending_builds st). priority r' \<le> priority r"
    by auto
  from rin have r1: "r \<in> set (build_records st)" and r2: "build_node r = None"
    and r3: "br_state r = NEEDS_BUILDING"
    by (auto simp: pending_builds_def)
  have top: "\<forall>r' \<in> set (build_records st).
               br_state r' = NEEDS_BUILDING \<and> build_node r' = None \<longrightarrow> priority r' \<le> priority r"
    using rmax by (simp add: pending_builds_def)
  have m: "claim_matches st (br_id r) = 1"
    using assms r1 r2 by (rule claim_matches_one)
  have g: "get_by_id (claim_update st (br_id r) node) (br_id r)
             = Inr (r\<lparr>build_node := Some (bn_name node)\<rparr>)"
    using assms r1 r2 by (rule get_by_id_claim_update)
  have "pick_build st node =
          (Inr (Some (r\<lparr>build_node := Some (bn_name node)\<rparr>)),
           claim_update st (br_id r) node)"
    by (subst pick_build.simps) (simp add: o m g)
  then have "pick_build st node =
          (Inr (Some (r\<lparr>build_node := Some (bn_name node)\<rparr>)),
           st\<lparr>build_records :=
                map (\<lambda>x. if br_id x = br_id r
                          then x\<lparr>build_node := Some (bn_name node)\<rparr> else x)
                    (build_records st)\<rparr>)"
    using claim_update_by_id[OF assms r1 r2, of node] by simp
  with r1 r2 r3 top show "\<exists>r \<in> set (build_records st).
               br_state r = NEEDS_BUILDING \<and> build_node r = None \<and>
               (\<forall>r' \<in> set (build_records st).
                  br_state r' = NEEDS_BUILDING \<and> build_node r' = None
                    \<longrightarrow> priority r' \<le> priority r) \<and>
               pick_build st node =
                 (Inr (Some (r\<lparr>build_node := Some (bn_name node)\<rparr>)),
                  st\<lparr>build_records :=
                       map (\<lambda>x. if br_id x = br_id r
                                 then x\<lparr>build_node := Some (bn_name node)\<rparr> else x)
                           (build_records st)\<rparr>)"
    by blast
qed

text \<open>
  In \<open>three_pending\<close> the records that need building and have no node have priorities
  10, 50 and 30; a built record of priority 90 and a record of priority 70 that already
  has a node stand between them.  The theorem leaves only the priority-50 record as the
  one claimed, and the other four rows are as they were.
\<close>

theorem pick_build_highest_priority_witness:
  "distinct (map br_id (build_records three_pending)) \<and>
   pick_build three_pending (mk_node ''buildd-7'' NEW '''')
     = (Inr (Some (mk_build 3 ''keystone'' 50 NEEDS_BUILDING (Some ''buildd-7''))),
        three_pending\<lparr>build_records :=
          [mk_build 1 ''nova'' 10 NEEDS_BUILDING None,
           mk_build 2 ''glance'' 90 SUCCESFULLY_BUILT None,
           mk_build 3 ''keystone'' 50 NEEDS_BUILDING (Some ''buildd-7''),
           mk_build 4 ''cinder'' 70 NEEDS_BUILDING (Some ''buildd-3''),
           mk_build 5 ''swift'' 30 NEEDS_BUILDING None]\<rparr>)"
proof -
  let ?node = "mk_node ''buildd-7'' NEW ''''"
  let ?cand = "\<lambda>r. br_state r = NEEDS_BUILDING \<and> build_node r = None"
  have d: "distinct (map br_id (build_records three_pending))"
    by (simp add: three_pending_def mk_build_def)
  have rs: "build_records three_pending =
          [mk_build 1 ''nova'' 10 NEEDS_BUILDING None,
           mk_build 2 ''glance'' 90 SUCCESFULLY_BUILT None,
           mk_build 3 ''keystone'' 50 NEEDS_BUILDING None,
           mk_build 4 ''cinder'' 70 NEEDS_BUILDING (Some ''buildd-3''),
           mk_build 5 ''swift'' 30 NEEDS_BUILDING None]"
    by (simp add: three_pending_def)
  have ex: "\<exists>r \<in> set (build_records three_pending). ?cand r"
    by (simp add: rs mk_build_def)
  from pick_build_highest_priority[OF d, of ?node] ex
  obtain r where r: "r \<in> set (build_records three_pending)" "?cand r"
    "\<forall>r' \<in> set (build_records three_pending). ?cand r' \<longrightarrow> priority r' \<le> priority r"
    "pick_build three_pending ?node =
       (Inr (Some (r\<lparr>build_node := Some (bn_name ?node)\<rparr>)),
        three_pending\<lparr>build_records :=
           map (\<lambda>x. if br_id x = br_id r then x\<lparr>build_node := Some (bn_name ?node)\<rparr> else x)
               (build_records three_pending)\<rparr>)"
    by blast
  have "r = mk_build 3 ''keystone'' 50 NEEDS_BUILDING None"
    using r(1,2,3)
    by (auto simp: rs mk_build_def NEEDS_BUILDING_def SUCCESFULLY_BUILT_def)
  with r(4) d show ?thesis
    by (simp add: rs mk_build_def mk_node_def)
qed

section \<open>Verification: exclusive claims under interleaving\<close>

lemma set_update_distinct:
  assumes "distinct (map f cs)" "i < length cs" "x \<in> set (cs[i := y])"
  shows "x = y \<or> (x \<in> set cs \<and> f x \<noteq> f (cs ! i))"
proof -
  from assms(3) obtain j where j: "j < length cs" "x = cs[i := y] ! j"
    by (metis in_set_conv_nth length_list_update)
  show ?thesis
  proof (cases "j = i")
    case True
    then show ?thesis using j assms(2) by simp
  next
    case False
    then have "x = cs ! j" using j by simp
    moreover have "f (cs ! j) \<noteq> f (cs ! i)"
      using assms(1,2) j(1) False
      by (metis distinct_conv_nth length_map nth_map)
    ultimately show ?thesis using j(1) by auto
  qed
qed

lemma caller_step_node: "caller_step st c = (st', c') \<Longrightarrow> caller_node c' = caller_node c"
  by (auto simp: caller_step_def Let_def split: pc.splits list.splits sum.splits if_splits)

lemma claim_update_ids: "map br_id (build_records (claim_update st i n)) = map br_id (build_records st)"
  by (auto simp: claim_update_def)

lemma caller_step_ids: "caller_step st c = (st', c') \<Longrightarrow> map br_id (build_records st') = map br_id (build_records st)"
  by (auto simp: caller_step_def Let_def claim_update_ids split: pc.splits list.splits sum.splits if_splits)

lemma claim_matches_le1:
  assumes "distinct (map br_id (build_records st))"
  shows "claim_matches st i = 0 \<or> (\<exists>r \<in> set (build_records st). br_id r = i \<and> build_node r = None \<and> claim_matches st i = 1)"
proof (cases "\<exists>r \<in> set (build_records st). br_id r = i \<and> build_node r = None")
  case True
  then show ?thesis using claim_matches_one[OF assms] by blast
next
  case False
  then show ?thesis by (auto simp: claim_matches_def filter_empty_conv)
qed

lemma claim_update_none:
  assumes "claim_matches st i = 0"
  shows "claim_update st i n = st"
proof -
  let ?g = "\<lambda>r. if br_id r = i \<and> build_node r = None
                 then r\<lparr>build_node := Some (bn_name n)\<rparr> else r"
  from assms have no: "\<forall>r \<in> set (build_records st). \<not> (br_id r = i \<and> build_node r = None)"
    by (simp add: claim_matches_def filter_empty_conv)
  have "map ?g (build_records st) = build_records st"
  proof (rule map_idI)
    fix x assume "x \<in> set (build_records st)"
    with no show "?g x = x" by simp
  qed
  then show ?thesis by (simp add: claim_update_def)
qed

lemma claim_update_one:
  assumes d: "distinct (map br_id (build_records st))"
    and r: "r \<in> set (build_records st)" "build_node r = None"
  shows "set (build_records (claim_update st (br_id r) n))
           = insert (r\<lparr>build_node := Some (bn_name n)\<rparr>) (set (build_records st) - {r})"
proof -
  let ?S = "set (build_records st)"
  have u: "\<forall>x \<in> ?S. br_id x = br_id r \<longrightarrow> x = r"
    using d r(1) by (meson distinct_map inj_onD)
  let ?g = "\<lambda>x. if br_id x = br_id r \<and> build_node x = None
                 then x\<lparr>build_node := Some (bn_name n)\<rparr> else x"
  have g1: "?g r = r\<lparr>build_node := Some (bn_name n)\<rparr>" using r(2) by simp
  have g2: "?g ` (?S - {r}) = ?S - {r}"
  proof -
    have "\<forall>x \<in> ?S - {r}. ?g x = x" using u by auto
    then show ?thesis by (simp add: image_cong)
  qed
  have "set (build_records (claim_update st (br_id r) n)) = ?g ` ?S"
    by (simp add: claim_update_def)
  also have "?S = insert r (?S - {r})" using r(1) by blast
  also have "?g ` (insert r (?S - {r})) = insert (?g r) (?g ` (?S - {r}))"
    by (rule image_insert)
  also have "\<dots> = insert (r\<lparr>build_node := Some (bn_name n)\<rparr>) (?S - {r})"
    by (simp only: g1 g2)
  finally show ?thesis .
qed

lemma caller_step_inv_one:
  assumes inv: "distinct (map br_id (build_records st))"
    and self: "\<forall>r \<in> set (build_records st). (build_node r = Some (bn_name (caller_node c))) = (won (caller_pc c) = Some (br_id r))"
    and ex: "\<forall>a. won (caller_pc c) = Some a \<longrightarrow> a \<in> br_id ` set (build_records st)"
    and st: "caller_step st c = (st', c')"
  shows "(\<forall>r \<in> set (build_records st'). (build_node r = Some (bn_name (caller_node c'))) = (won (caller_pc c') = Some (br_id r)))
       \<and> (\<forall>a. won (caller_pc c') = Some a \<longrightarrow> a \<in> br_id ` set (build_records st'))"
proof (cases "caller_pc c")
  case Scanning
  then show ?thesis using self ex st
    by (auto simp: caller_step_def split: list.splits)
next
  case (Chosen a)
  from claim_matches_le1[OF inv, of a] show ?thesis
  proof
    assume z: "claim_matches st a = 0"
    then have "st' = st" "caller_pc c' = Scanning" "caller_node c' = caller_node c"
      using st Chosen by (auto simp: caller_step_def Let_def claim_update_none)
    then show ?thesis using self Chosen by simp
  next
    assume "\<exists>r \<in> set (build_records st). br_id r = a \<and> build_node r = None \<and> claim_matches st a = 1"
    then obtain r where r: "r \<in> set (build_records st)" "br_id r = a" "build_node r = None"
      "claim_matches st a = 1" by blast
    then have s: "st' = claim_update st (br_id r) (caller_node c)" "caller_pc c' = Claimed a"
      "caller_node c' = caller_node c"
      using st Chosen by (auto simp: caller_step_def Let_def)
    have u: "\<forall>x \<in> set (build_records st). br_id x = br_id r \<longrightarrow> x = r"
      using inv r(1) by (meson distinct_map inj_onD)
    have S: "set (build_records st') = insert (r\<lparr>build_node := Some (bn_name (caller_node c))\<rparr>) (set (build_records st) - {r})"
      using claim_update_one[OF inv r(1) r(3)] s(1) by simp
    have n: "\<forall>x \<in> set (build_records st). build_node x \<noteq> Some (bn_name (caller_node c))"
      using self Chosen by simp
    let ?r' = "r\<lparr>build_node := Some (bn_name (caller_node c))\<rparr>"
    have "(build_node x = Some (bn_name (caller_node c))) = (a = br_id x)"
      if x: "x \<in> set (build_records st')" for x
    proof -
      from x S have "x = ?r' \<or> (x \<in> set (build_records st) \<and> x \<noteq> r)" by blast
      then show ?thesis
      proof
        assume "x = ?r'"
        then show ?thesis using r(2) by simp
      next
        assume b: "x \<in> set (build_records st) \<and> x \<noteq> r"
        then have "br_id x \<noteq> a" using u r(2) by metis
        moreover have "build_node x \<noteq> Some (bn_name (caller_node c))" using n b by blast
        ultimately show ?thesis by simp
      qed
    qed
    moreover have "a \<in> br_id ` set (build_records st')"
    proof -
      have "?r' \<in> set (build_records st')" using S by blast
      moreover have "br_id ?r' = a" using r(2) by simp
      ultimately show ?thesis by (metis imageI)
    qed
    ultimately show ?thesis
      by (simp add: s(2,3))
  qed
next
  case (Claimed a)
  then have "a \<in> br_id ` set (build_records st)" using ex by simp
  then obtain r where r: "r \<in> set (build_records st)" "br_id r = a" by auto
  then have "get_by_id st a = Inr r"
    using filter_id_unique[OF inv r(1)] by (simp add: get_by_id_def)
  then have "st' = st" "caller_pc c' = Returned (Some r)" "caller_node c' = caller_node c"
    using st Claimed by (auto simp: caller_step_def)
  then show ?thesis using self ex Claimed r by auto
next
  case (Returned x)
  then show ?thesis using self ex st by (auto simp: caller_step_def)
next
  case (Raised e)
  then show ?thesis using self ex st by (auto simp: caller_step_def)
qed

lemma caller_step_inv_other:
  assumes inv: "distinct (map br_id (build_records st))"
    and self: "\<forall>r \<in> set (build_records st). (build_node r = Some (bn_name (caller_node c))) = (won (caller_pc c) = Some (br_id r))"
    and other: "\<forall>r \<in> set (build_records st). (build_node r = Some (bn_name (caller_node d))) = (won (caller_pc d) = Some (br_id r))"
    and ne: "bn_name (caller_node d) \<noteq> bn_name (caller_node c)"
    and st: "caller_step st c = (st', c')"
  shows "\<forall>r \<in> set (build_records st'). (build_node r = Some (bn_name (caller_node d))) = (won (caller_pc d) = Some (br_id r))"
proof (cases "caller_pc c")
  case Scanning
  then show ?thesis using other st
    by (auto simp: caller_step_def split: list.splits)
next
  case (Chosen a)
  from claim_matches_le1[OF inv, of a] show ?thesis
  proof
    assume z: "claim_matches st a = 0"
    then have "st' = st"
      using st Chosen by (auto simp: caller_step_def Let_def claim_update_none)
    then show ?thesis using other by simp
  next
    assume "\<exists>r \<in> set (build_records st). br_id r = a \<and> build_node r = None \<and> claim_matches st a = 1"
    then obtain r where r: "r \<in> set (build_records st)" "br_id r = a" "build_node r = None"
      "claim_matches st a = 1" by blast
    then have s: "st' = claim_update st (br_id r) (caller_node c)"
      using st Chosen by (auto simp: caller_step_def Let_def)
    have S: "set (build_records st') = insert (r\<lparr>build_node := Some (bn_name (caller_node c))\<rparr>) (set (build_records st) - {r})"
      using claim_update_one[OF inv r(1) r(3)] s(1) by simp
    have w: "won (caller_pc d) \<noteq> Some (br_id r)"
      using other r(1) r(3) by auto
    let ?r' = "r\<lparr>build_node := Some (bn_name (caller_node c))\<rparr>"
    have "(build_node x = Some (bn_name (caller_node d))) = (won (caller_pc d) = Some (br_id x))"
      if x: "x \<in> set (build_records st')" for x
    proof -
      from x S have "x = ?r' \<or> (x \<in> set (build_records st) \<and> x \<noteq> r)" by blast
      then show ?thesis
      proof
        assume "x = ?r'"
        then show ?thesis using w ne by simp
      next
        assume "x \<in> set (build_records st) \<and> x \<noteq> r"
        then show ?thesis using other by blast
      qed
    qed
    then show ?thesis by blast
  qed
next
  case (Claimed a)
  then have "st' = st" using st by (auto simp: caller_step_def split: sum.splits)
  then show ?thesis using other by simp
next
  case (Returned x)
  then show ?thesis using other st by (auto simp: caller_step_def)
next
  case (Raised e)
  then show ?thesis using other st by (auto simp: caller_step_def)
qed

lemma pick_step_inv:
  assumes "claim_inv st cs" "pick_step i (st, cs) = (st', cs')"
  shows "claim_inv st' cs'"
proof (cases "i < length cs")
  case False
  then show ?thesis using assms by (simp add: pick_step_def)
next
  case True
  obtain st1 c1 where cs1: "caller_step st (cs ! i) = (st1, c1)" by (cases "caller_step st (cs ! i)")
  then have e: "st' = st1" "cs' = cs[i := c1]" using assms(2) True by (auto simp: pick_step_def)
  let ?c = "cs ! i"
  have cin: "?c \<in> set cs" using True by simp
  have d: "distinct (map br_id (build_records st))" using assms(1) by (simp add: claim_inv_def)
  have dn: "distinct (map (\<lambda>c. bn_name (caller_node c)) cs)" using assms(1) by (simp add: claim_inv_def)
  have self: "\<forall>r \<in> set (build_records st). (build_node r = Some (bn_name (caller_node ?c))) = (won (caller_pc ?c) = Some (br_id r))"
    using assms(1) cin by (simp add: claim_inv_def)
  have ex: "\<forall>a. won (caller_pc ?c) = Some a \<longrightarrow> a \<in> br_id ` set (build_records st)"
    using assms(1) cin by (simp add: claim_inv_def)
  have ids: "map br_id (build_records st1) = map br_id (build_records st)"
    using cs1 by (rule caller_step_ids)
  have nd: "caller_node c1 = caller_node ?c" using cs1 by (rule caller_step_node)
  have one: "(\<forall>r \<in> set (build_records st1). (build_node r = Some (bn_name (caller_node c1))) = (won (caller_pc c1) = Some (br_id r)))
       \<and> (\<forall>a. won (caller_pc c1) = Some a \<longrightarrow> a \<in> br_id ` set (build_records st1))"
    using caller_step_inv_one[OF d self ex cs1] .
  have names: "map (\<lambda>c. bn_name (caller_node c)) (cs[i := c1]) = map (\<lambda>c. bn_name (caller_node c)) cs"
    using nd True by (simp add: map_update list_update_same_conv)
  have idset: "br_id ` set (build_records st1) = br_id ` set (build_records st)"
    using ids by (metis set_map)
  have others: "\<forall>r \<in> set (build_records st1). (build_node r = Some (bn_name (caller_node x))) = (won (caller_pc x) = Some (br_id r))"
    and others_ex: "\<forall>a. won (caller_pc x) = Some a \<longrightarrow> a \<in> br_id ` set (build_records st1)"
    if x: "x \<in> set (cs[i := c1])" for x
  proof -
    from set_update_distinct[OF dn True x]
    have "x = c1 \<or> (x \<in> set cs \<and> bn_name (caller_node x) \<noteq> bn_name (caller_node ?c))" .
    then show "\<forall>r \<in> set (build_records st1). (build_node r = Some (bn_name (caller_node x))) = (won (caller_pc x) = Some (br_id r))"
    proof
      assume "x = c1" then show ?thesis using one by simp
    next
      assume a: "x \<in> set cs \<and> bn_name (caller_node x) \<noteq> bn_name (caller_node ?c)"
      then have o: "\<forall>r \<in> set (build_records st). (build_node r = Some (bn_name (caller_node x))) = (won (caller_pc x) = Some (br_id r))"
        using assms(1) by (simp add: claim_inv_def)
      show ?thesis using caller_step_inv_other[OF d self o _ cs1] a by blast
    qed
    from \<open>x = c1 \<or> (x \<in> set cs \<and> bn_name (caller_node x) \<noteq> bn_name (caller_node ?c))\<close>
    show "\<forall>a. won (caller_pc x) = Some a \<longrightarrow> a \<in> br_id ` set (build_records st1)"
    proof
      assume "x = c1" then show ?thesis using one by simp
    next
      assume a: "x \<in> set cs \<and> bn_name (caller_node x) \<noteq> bn_name (caller_node ?c)"
      have "\<forall>c \<in> set cs. \<forall>a. won (caller_pc c) = Some a \<longrightarrow> a \<in> br_id ` set (build_records st)"
        using assms(1) by (simp add: claim_inv_def)
      then show ?thesis using a idset by blast
    qed
  qed
  have d1: "distinct (map br_id (build_records st1))" using d ids by simp
  have dn1: "distinct (map (\<lambda>c. bn_name (caller_node c)) (cs[i := c1]))" using dn names by simp
  show ?thesis
    unfolding claim_inv_def e
    using d1 dn1 others others_ex by blast
qed

lemma interleave_inv:
  "claim_inv st cs \<Longrightarrow> interleave sched (st, cs) = (st', cs') \<Longrightarrow> claim_inv st' cs'"
proof (induction sched arbitrary: st cs)
  case Nil
  then show ?case by (simp add: interleave_def)
next
  case (Cons i sched)
  obtain st1 cs1 where p: "pick_step i (st, cs) = (st1, cs1)" by (cases "pick_step i (st, cs)")
  then have "interleave sched (st1, cs1) = (st', cs')"
    using Cons.prems(2) by (simp add: interleave_def)
  moreover have "claim_inv st1 cs1" using pick_step_inv[OF Cons.prems(1) p] .
  ultimately show ?case using Cons.IH by blast
qed

lemma claim_update_keeps_assigned:
  assumes "r \<in> set (build_records st)" "build_node r \<noteq> None"
  shows "r \<in> set (build_records (claim_update st i n))"
proof -
  let ?g = "\<lambda>x. if br_id x = i \<and> build_node x = None
                 then x\<lparr>build_node := Some (bn_name n)\<rparr> else x"
  have "r = ?g r" using assms(2) by simp
  then have "r \<in> ?g ` set (build_records st)" using assms(1) by (rule image_eqI)
  then show ?thesis by (simp add: claim_update_def)
qed

lemma caller_step_keeps_assigned:
  assumes "r \<in> set (build_records st)" "build_node r \<noteq> None" "caller_step st c = (st', c')"
  shows "r \<in> set (build_records st')"
proof (cases "caller_pc c")
  case (Chosen a)
  then have "st' = claim_update st a (caller_node c)"
    using assms(3) by (auto simp: caller_step_def Let_def split: if_splits)
  then show ?thesis using claim_update_keeps_assigned[OF assms(1,2)] by simp
next
  case Scanning
  then have "st' = st" using assms(3) by (auto simp: caller_step_def split: list.splits)
  then show ?thesis using assms(1) by simp
next
  case (Claimed a)
  then have "st' = st" using assms(3) by (auto simp: caller_step_def split: sum.splits)
  then show ?thesis using assms(1) by simp
next
  case (Returned x)
  then have "st' = st" using assms(3) by (auto simp: caller_step_def)
  then show ?thesis using assms(1) by simp
next
  case (Raised e)
  then have "st' = st" using assms(3) by (auto simp: caller_step_def)
  then show ?thesis using assms(1) by simp
qed

lemma interleave_keeps_assigned:
  "r \<in> set (build_records st) \<Longrightarrow> build_node r \<noteq> None \<Longrightarrow>
   interleave sched (st, cs) = (st', cs') \<Longrightarrow> r \<in> set (build_records st')"
proof (induction sched arbitrary: st cs)
  case Nil
  then show ?case by (simp add: interleave_def)
next
  case (Cons i sched)
  obtain st1 cs1 where p: "pick_step i (st, cs) = (st1, cs1)" by (cases "pick_step i (st, cs)")
  then have run: "interleave sched (st1, cs1) = (st', cs')"
    using Cons.prems(3) by (simp add: interleave_def)
  have "r \<in> set (build_records st1)"
  proof (cases "i < length cs")
    case False
    then show ?thesis using p Cons.prems(1) by (simp add: pick_step_def)
  next
    case True
    obtain s2 c2 where c: "caller_step st (cs ! i) = (s2, c2)" by (cases "caller_step st (cs ! i)")
    then have "st1 = s2" using p True by (simp add: pick_step_def)
    then show ?thesis using caller_step_keeps_assigned[OF Cons.prems(1,2) c] by simp
  qed
  then show ?case using Cons.IH[OF _ Cons.prems(2) run] by blast
qed

lemma assigned_never_matches:
  assumes "distinct (map br_id (build_records st))" "r \<in> set (build_records st)"
    "build_node r \<noteq> None"
  shows "claim_matches st (br_id r) = 0"
proof -
  have "\<forall>x \<in> set (build_records st). br_id x = br_id r \<longrightarrow> x = r"
    using assms(1,2) by (meson distinct_map inj_onD)
  then have "\<forall>x \<in> set (build_records st). \<not> (br_id x = br_id r \<and> build_node x = None)"
    using assms(3) by metis
  then show ?thesis by (simp add: claim_matches_def filter_empty_conv)
qed

lemma claim_inv_initial:
  assumes "distinct (map br_id (build_records st))"
    and "distinct (map (\<lambda>c. bn_name (caller_node c)) cs)"
    and "\<forall>c \<in> set cs. caller_pc c = Scanning"
    and "\<forall>r \<in> set (build_records st). \<forall>c \<in> set cs.
           build_node r \<noteq> Some (bn_name (caller_node c))"
  shows "claim_inv st cs"
  unfolding claim_inv_def using assms by simp

lemma chosen_step:
  assumes "i < length cs" "caller_pc (cs ! i) = Chosen a"
  shows "caller_pc (snd (pick_step i (st, cs)) ! i) = Claimed a \<or>
         caller_pc (snd (pick_step i (st, cs)) ! i) = Scanning"
  using assms by (simp add: pick_step_def caller_step_def Let_def)

text \<open>
  Claim C1.  Callers with distinct fresh nodes start \<open>pick_build\<close> on a store with
  distinct record ids, and the scheduler interleaves their statements in any order
  \<open>sched\<close>, then in any further order \<open>later\<close>.  At every point reached: a record
  points at a caller's node exactly when that caller has won it; no two callers have won
  the same record; a record that has a node keeps it in every later state, where the
  conditional update matches no row for its id; and a caller about to run its conditional
  update either wins the record it chose or goes back to scanning.
\<close>

theorem claim_exclusive:
  assumes "distinct (map br_id (build_records st))"
    and "distinct (map (\<lambda>c. bn_name (caller_node c)) cs)"
    and "\<forall>c \<in> set cs. caller_pc c = Scanning"
    and "\<forall>r \<in> set (build_records st). \<forall>c \<in> set cs.
           build_node r \<noteq> Some (bn_name (caller_node c))"
    and "interleave sched (st, cs) = (st1, cs1)"
    and "interleave later (st1, cs1) = (st2, cs2)"
  shows "(\<forall>r \<in> set (build_records st1). \<forall>i < length cs1.
            (build_node r = Some (bn_name (caller_node (cs1 ! i))))
              = (won (caller_pc (cs1 ! i)) = Some (br_id r)))
       \<and> (\<forall>i < length cs1. \<forall>j < length cs1.
            won (caller_pc (cs1 ! i)) \<noteq> None \<and>
            won (caller_pc (cs1 ! i)) = won (caller_pc (cs1 ! j)) \<longrightarrow> i = j)
       \<and> (\<forall>r \<in> set (build_records st1). build_node r \<noteq> None \<longrightarrow>
            r \<in> set (build_records st2) \<and> claim_matches st2 (br_id r) = 0)
       \<and> (\<forall>i < length cs1. \<forall>a. caller_pc (cs1 ! i) = Chosen a \<longrightarrow>
            caller_pc (snd (pick_step i (st1, cs1)) ! i) = Claimed a \<or>
            caller_pc (snd (pick_step i (st1, cs1)) ! i) = Scanning)"
proof -
  have inv0: "claim_inv st cs" using assms(1-4) by (rule claim_inv_initial)
  have inv1: "claim_inv st1 cs1" using interleave_inv[OF inv0 assms(5)] .
  have inv2: "claim_inv st2 cs2" using interleave_inv[OF inv1 assms(6)] .
  have owner: "\<forall>r \<in> set (build_records st1). \<forall>c \<in> set cs1.
        (build_node r = Some (bn_name (caller_node c))) = (won (caller_pc c) = Some (br_id r))"
    using inv1 by (simp add: claim_inv_def)
  have exists: "\<forall>c \<in> set cs1. \<forall>a. won (caller_pc c) = Some a \<longrightarrow> a \<in> br_id ` set (build_records st1)"
    using inv1 by (simp add: claim_inv_def)
  have dn: "distinct (map (\<lambda>c. bn_name (caller_node c)) cs1)"
    using inv1 by (simp add: claim_inv_def)
  have A: "\<forall>r \<in> set (build_records st1). \<forall>i < length cs1.
            (build_node r = Some (bn_name (caller_node (cs1 ! i))))
              = (won (caller_pc (cs1 ! i)) = Some (br_id r))"
  proof (intro ballI allI impI)
    fix r i assume "r \<in> set (build_records st1)" "i < length cs1"
    then have "r \<in> set (build_records st1)" "cs1 ! i \<in> set cs1" by simp_all
    then show "(build_node r = Some (bn_name (caller_node (cs1 ! i))))
              = (won (caller_pc (cs1 ! i)) = Some (br_id r))"
      using owner by blast
  qed
  have B: "\<forall>i < length cs1. \<forall>j < length cs1.
            won (caller_pc (cs1 ! i)) \<noteq> None \<and>
            won (caller_pc (cs1 ! i)) = won (caller_pc (cs1 ! j)) \<longrightarrow> i = j"
  proof (intro allI impI)
    fix i j
    assume i: "i < length cs1" and j: "j < length cs1"
      and w: "won (caller_pc (cs1 ! i)) \<noteq> None \<and> won (caller_pc (cs1 ! i)) = won (caller_pc (cs1 ! j))"
    from w obtain a where a1: "won (caller_pc (cs1 ! i)) = Some a" by blast
    with w have a2: "won (caller_pc (cs1 ! j)) = Some a" by simp
    note a = a1 a2
    have "cs1 ! i \<in> set cs1" using i by simp
    then have "a \<in> br_id ` set (build_records st1)" using exists a(1) by blast
    then obtain r where r: "r \<in> set (build_records st1)" "br_id r = a" by auto
    have "build_node r = Some (bn_name (caller_node (cs1 ! i)))" using A r i a(1) by simp
    moreover have "build_node r = Some (bn_name (caller_node (cs1 ! j)))" using A r j a(2) by simp
    ultimately have "bn_name (caller_node (cs1 ! i)) = bn_name (caller_node (cs1 ! j))" by simp
    then have "map (\<lambda>c. bn_name (caller_node c)) cs1 ! i = map (\<lambda>c. bn_name (caller_node c)) cs1 ! j"
      using i j by simp
    then show "i = j" using dn i j by (metis nth_eq_iff_index_eq length_map)
  qed
  have C: "\<forall>r \<in> set (build_records st1). build_node r \<noteq> None \<longrightarrow>
            r \<in> set (build_records st2) \<and> claim_matches st2 (br_id r) = 0"
  proof (intro ballI impI)
    fix r assume r: "r \<in> set (build_records st1)" "build_node r \<noteq> None"
    have in2: "r \<in> set (build_records st2)"
      using interleave_keeps_assigned[OF r assms(6)] .
    have "distinct (map br_id (build_records st2))" using inv2 by (simp add: claim_inv_def)
    then have "claim_matches st2 (br_id r) = 0"
      using in2 r(2) by (rule assigned_never_matches)
    with in2 show "r \<in> set (build_records st2) \<and> claim_matches st2 (br_id r) = 0" by simp
  qed
  have D: "\<forall>i < length cs1. \<forall>a. caller_pc (cs1 ! i) = Chosen a \<longrightarrow>
            caller_pc (snd (pick_step i (st1, cs1)) ! i) = Claimed a \<or>
            caller_pc (snd (pick_step i (st1, cs1)) ! i) = Scanning"
  proof (intro allI impI)
    fix i a assume "i < length cs1" "caller_pc (cs1 ! i) = Chosen a"
    then show "caller_pc (snd (pick_step i (st1, cs1)) ! i) = Claimed a \<or>
            caller_pc (snd (pick_step i (st1, cs1)) ! i) = Scanning"
      by (rule chosen_step)
  qed
  from A B C D show ?thesis by - ((rule conjI, assumption)+, assumption)
qed

text \<open>
  Two callers race for the only pending record: both scan, the first wins the update,
  the second matches no row, rescans and finds no work.
\<close>

lemma race_first_part:
  "interleave [0, 1, 0, 1, 0] (one_pending, two_callers) = (won_by_first, after_race Scanning)"
  by (simp add: interleave_def pick_step_def caller_step_def one_pending_def two_callers_def
      won_by_first_def after_race_def mk_record_def mk_node_def pending_builds_def
      order_by_priority_desc_def claim_matches_def claim_update_def get_by_id_def
      NEEDS_BUILDING_def NEW_def Let_def)

lemma race_second_part:
  "interleave [1] (won_by_first, after_race Scanning)
     = (won_by_first, after_race (Returned None))"
  by (simp add: interleave_def pick_step_def caller_step_def won_by_first_def after_race_def
      mk_record_def mk_node_def pending_builds_def order_by_priority_desc_def
      NEEDS_BUILDING_def NEW_def)

theorem claim_exclusive_witness:
  "interleave [0, 1, 0, 1, 0] (one_pending, two_callers) = (won_by_first, after_race Scanning) \<and>
   interleave [1] (won_by_first, after_race Scanning)
     = (won_by_first, after_race (Returned None)) \<and>
   mk_record 1 10 NEEDS_BUILDING (Some ''buildd-1'') \<in> set (build_records won_by_first) \<and>
   claim_matches won_by_first (br_id (mk_record 1 10 NEEDS_BUILDING (Some ''buildd-1''))) = 0 \<and>
   won (caller_pc (after_race Scanning ! 0)) = Some 1 \<and>
   won (caller_pc (after_race Scanning ! 1)) = None"
proof -
  have h1: "distinct (map br_id (build_records one_pending))"
    by (simp add: one_pending_def)
  have h2: "distinct (map (\<lambda>c. bn_name (caller_node c)) two_callers)"
    by (simp add: two_callers_def mk_node_def)
  have h3: "\<forall>c \<in> set two_callers. caller_pc c = Scanning"
    by (simp add: two_callers_def)
  have h4: "\<forall>r \<in> set (build_records one_pending). \<forall>c \<in> set two_callers.
              build_node r \<noteq> Some (bn_name (caller_node c))"
    by (simp add: one_pending_def two_callers_def mk_record_def)
  note all = claim_exclusive[OF h1 h2 h3 h4 race_first_part race_second_part]
  let ?r = "mk_record 1 10 NEEDS_BUILDING (Some ''buildd-1'')"
  have mem: "?r \<in> set (build_records won_by_first)"
    by (simp add: won_by_first_def)
  have "build_node ?r \<noteq> None" by (simp add: mk_record_def)
  with all mem have "claim_matches won_by_first (br_id ?r) = 0" by blast
  moreover have "won (caller_pc (after_race Scanning ! 0)) = Some 1"
    "won (caller_pc (after_race Scanning ! 1)) = None"
    by (simp_all add: after_race_def mk_record_def)
  ultimately show ?thesis
    using race_first_part race_second_part mem by simp
qed

section \<open>Verification: remote commands\<close>

lemma run_cmd_loop_exit:
  assumes "list_all is_output pre"
  shows "run_cmd_loop cmd (pre @ Exit status # post) =
           (chunks_of pre,
            Some (if status \<noteq> 0 then Inl (PyException (''Command '' @ cmd @ '' failed''))
                  else Inr ()))"
  using assms
proof (induction pre)
  case Nil
  then show ?case by simp
next
  case (Cons e pre)
  then show ?case by (cases e) simp_all
qed

text \<open>
  Two other ways the loop can go: a channel that delivers output and then nothing more
  keeps the loop running for ever, and an empty chunk would end the generator without the
  exit status being read.
\<close>

lemma run_cmd_loop_empty_chunk:
  "list_all is_output pre \<Longrightarrow>
   run_cmd_loop cmd (pre @ Data [] # post) = (chunks_of pre, Some (Inr ()))"
proof (induction pre)
  case Nil
  then show ?case by simp
next
  case (Cons e pre)
  then show ?case by (cases e) simp_all
qed

lemma run_cmd_loop_silent:
  "list_all is_output es \<Longrightarrow> run_cmd_loop cmd es = (chunks_of es, None)"
proof (induction es)
  case Nil
  then show ?case by simp
next
  case (Cons e es)
  then show ?case by (cases e) simp_all
qed

lemma log_whole_lines_no_newline:
  "CHR 0x0A \<notin> set lbuf \<Longrightarrow> log_whole_lines lbuf = ([], lbuf)"
  by (simp add: log_whole_lines.simps)

lemma log_whole_lines_rest:
  "CHR 0x0A \<notin> set (snd (log_whole_lines lbuf))"
proof (induction lbuf rule: log_whole_lines.induct)
  case (1 lbuf)
  show ?case
  proof (cases "CHR 0x0A \<in> set lbuf")
    case True
    then show ?thesis using 1
      by (subst log_whole_lines.simps) (simp add: split_beta)
  next
    case False
    then show ?thesis by (simp add: log_whole_lines.simps)
  qed
qed

lemma log_whole_lines_append:
  "log_whole_lines (x @ y) =
     (fst (log_whole_lines x) @ fst (log_whole_lines (snd (log_whole_lines x) @ y)),
      snd (log_whole_lines (snd (log_whole_lines x) @ y)))"
proof (induction x rule: log_whole_lines.induct)
  case (1 lbuf)
  show ?case
  proof (cases "CHR 0x0A \<in> set lbuf")
    case False
    then show ?thesis by (simp add: log_whole_lines_no_newline)
  next
    case True
    let ?p = "\<lambda>c. c \<noteq> CHR 0x0A"
    have ne: "dropWhile ?p lbuf \<noteq> []" using True by (simp add: dropWhile_eq_Nil_conv)
    have d: "dropWhile ?p (lbuf @ y) = dropWhile ?p lbuf @ y"
      using True by (simp add: dropWhile_append1)
    have t: "takeWhile ?p (lbuf @ y) = takeWhile ?p lbuf"
      using True by (simp add: takeWhile_append1)
    have tl: "tl (dropWhile ?p (lbuf @ y)) = tl (dropWhile ?p lbuf) @ y"
      using d ne by simp
    have L: "log_whole_lines (lbuf @ y) =
               (takeWhile ?p lbuf # fst (log_whole_lines (tl (dropWhile ?p lbuf) @ y)),
                snd (log_whole_lines (tl (dropWhile ?p lbuf) @ y)))"
      using True by (subst log_whole_lines.simps) (simp add: t tl split_beta)
    have R: "log_whole_lines lbuf =
               (takeWhile ?p lbuf # fst (log_whole_lines (tl (dropWhile ?p lbuf))),
                snd (log_whole_lines (tl (dropWhile ?p lbuf))))"
      using True by (subst log_whole_lines.simps) (simp add: split_beta)
    show ?thesis
      using 1[OF True] by (simp add: L R)
  qed
qed

lemma consume_all:
  "consume name ds out lbuf lg =
     (out @ concat ds,
      snd (log_whole_lines (lbuf @ concat ds)),
      lg @ map (log_line name) (fst (log_whole_lines (lbuf @ concat ds))))"
  if "CHR 0x0A \<notin> set lbuf"
  using that
proof (induction ds arbitrary: out lbuf lg)
  case Nil
  then show ?case by (simp add: log_whole_lines_no_newline)
next
  case (Cons d ds)
  obtain ls r where l: "log_whole_lines (lbuf @ d) = (ls, r)" by (cases "log_whole_lines (lbuf @ d)")
  have r: "CHR 0x0A \<notin> set r" using log_whole_lines_rest[of "lbuf @ d"] l by simp
  have "log_whole_lines ((lbuf @ d) @ concat ds) = (ls @ fst (log_whole_lines (r @ concat ds)), snd (log_whole_lines (r @ concat ds)))"
    using log_whole_lines_append[of "lbuf @ d" "concat ds"] l by simp
  then show ?case using Cons.IH[OF r, of "out @ d" "lg @ map (log_line name) ls"] l by simp
qed

lemma log_whole_lines_again:
  "log_whole_lines (snd (log_whole_lines lbuf)) = ([], snd (log_whole_lines lbuf))"
  using log_whole_lines_rest by (rule log_whole_lines_no_newline)

text \<open>
  Claim C7.  The channel delivers output (with pauses), then the exit status.  The
  generator \<^verbatim>\<open>run_cmd\<close> yields every chunk delivered before the status, in order, and
  then raises \<^verbatim>\<open>Exception('Command ... failed')\<close> when the status is not zero, and is
  exhausted without raising when it is zero.  \<^verbatim>\<open>_run_cmd\<close> raises the same exception
  in the first case, after logging every complete line of that output, and in the second
  returns the whole output, having logged its lines and the unfinished last line.
\<close>

theorem run_cmd_exit_status:
  assumes "ssh w (tick s) = Channel (pre @ Exit status # post)"
    and "keypair (db s) self = Inr k"
    and "list_all is_output pre"
  shows "fst (run_cmd w s self cmd) =
           (chunks_of pre,
            Some (if status \<noteq> 0 then Inl (PyException (''Command '' @ cmd @ '' failed''))
                  else Inr ()))
       \<and> run_cmd_logged w s self cmd =
           Some (if status \<noteq> 0 then Inl (PyException (''Command '' @ cmd @ '' failed''))
                 else Inr (concat (chunks_of pre)),
                 s\<lparr>tick := tick s + 1,
                   logged := logged s
                     @ map (log_line (bn_name self))
                         (fst (log_whole_lines (concat (chunks_of pre))))
                     @ (if status \<noteq> 0 then []
                        else [log_line (bn_name self)
                                (snd (log_whole_lines (concat (chunks_of pre))))])\<rparr>)"
proof -
  let ?end = "Some (if status \<noteq> 0 then Inl (PyException (''Command '' @ cmd @ '' failed''))
                  else Inr ())"
  let ?s1 = "s\<lparr>tick := tick s + 1\<rparr>"
  let ?out = "concat (chunks_of pre)"
  have r: "run_cmd w s self cmd = ((chunks_of pre, ?end), ?s1)"
    using assms(1,2) run_cmd_loop_exit[OF assms(3), of cmd status post]
    by (simp add: run_cmd_def)
  have c: "consume (bn_name self) (chunks_of pre) [] [] (logged ?s1) =
             (?out, snd (log_whole_lines ?out),
              logged s @ map (log_line (bn_name self)) (fst (log_whole_lines ?out)))"
    using consume_all[of "[]" "bn_name self" "chunks_of pre" "[]" "logged ?s1"] by simp
  show ?thesis
  proof (cases "status = 0")
    case True
    then show ?thesis
      using r c by (simp add: run_cmd_logged_def log_whole_lines_again)
  next
    case False
    then show ?thesis
      using r c by (simp add: run_cmd_logged_def)
  qed
qed

text \<open>
  A command prints \<^verbatim>\<open>ab\<close>, pauses, prints \<^verbatim>\<open>c\<close>, a newline and \<^verbatim>\<open>de\<close>, and exits
  with status 2: both chunks are yielded, the line \<^verbatim>\<open>abc\<close> is logged, and the
  exception is raised.
\<close>

theorem run_cmd_exit_status_witness:
  "ssh (quiet_world\<lparr>ssh := \<lambda>n. Channel [Data ''ab'', Idle, Data (''c'' @ [CHR 0x0A] @ ''de''),
                                           Exit 2, Data ''late'']\<rparr>) (tick (at_start leased))
     = Channel ([Data ''ab'', Idle, Data (''c'' @ [CHR 0x0A] @ ''de'')] @ Exit 2 # [Data ''late'']) \<and>
   list_all is_output [Data ''ab'', Idle, Data (''c'' @ [CHR 0x0A] @ ''de'')] \<and>
   fst (run_cmd (quiet_world\<lparr>ssh := \<lambda>n. Channel [Data ''ab'', Idle,
                    Data (''c'' @ [CHR 0x0A] @ ''de''), Exit 2, Data ''late'']\<rparr>)
          (at_start leased) (mk_node ''buildd-7'' NEW '''') ''make'')
     = ([''ab'', ''c'' @ [CHR 0x0A] @ ''de''],
        Some (Inl (PyException ''Command make failed''))) \<and>
   run_cmd_logged (quiet_world\<lparr>ssh := \<lambda>n. Channel [Data ''ab'', Idle,
                    Data (''c'' @ [CHR 0x0A] @ ''de''), Exit 2, Data ''late'']\<rparr>)
          (at_start leased) (mk_node ''buildd-7'' NEW '''') ''make''
     = Some (Inl (PyException ''Command make failed''),
             \<lparr>db = leased, tick = 1, slept = 0, logged = [''buildd-7       : abc'']\<rparr>)"
proof -
  let ?w = "quiet_world\<lparr>ssh := \<lambda>n. Channel [Data ''ab'', Idle,
                    Data (''c'' @ [CHR 0x0A] @ ''de''), Exit 2, Data ''late'']\<rparr>"
  let ?pre = "[Data ''ab'', Idle, Data (''c'' @ [CHR 0x0A] @ ''de'')]"
  have h1: "ssh ?w (tick (at_start leased)) = Channel (?pre @ Exit 2 # [Data ''late''])"
    by simp
  have h2: "keypair (db (at_start leased)) (mk_node ''buildd-7'' NEW '''')
              = Inr \<lparr>kp_id = 1, kp_cloud = ''cloud-a'', kp_name = ''buildd-3'',
                     private_key = ''PRIVATE'', public_key = ''PUBLIC''\<rparr>"
    by (simp add: keypair_def at_start_def leased_def mk_node_def)
  have h3: "list_all is_output ?pre" by simp
  have l: "log_whole_lines (''abc'' @ [CHR 0x0A] @ ''de'') = ([''abc''], ''de'')"
    by (simp add: log_whole_lines.simps)
  have pad: "replicate 7 CHR '' '' = ''       ''"
    by (simp add: numeral_eq_Suc)
  from run_cmd_exit_status[OF h1 h2 h3, of "''make''"] h1 h3 l
  show ?thesis
    by (simp add: at_start_def mk_node_def log_line_def pad)
qed

section \<open>Verification: update_state and build\<close>

text \<open>
  \<^verbatim>\<open>BuildRecord.update_state\<close> writes the state of the rows with the object's id and of
  the cached object, and nothing else: the other tables are the same, the table of build
  records keeps its length and order, a row with another id is the same row, and a row
  with this id differs at most in its state.
\<close>

lemma BuildRecord_update_state_frame:
  assumes "BuildRecord_update_state st self new_state = (r, st', self')"
  shows "r = Inr () \<and> self' = self\<lparr>br_state := new_state\<rparr> \<and>
         build_nodes st' = build_nodes st \<and> key_pairs st' = key_pairs st \<and>
         clouds st' = clouds st \<and>
         length (build_records st') = length (build_records st) \<and>
         (\<forall>i < length (build_records st).
            build_records st' ! i =
              (if br_id (build_records st ! i) = br_id self
               then (build_records st ! i)\<lparr>br_state := new_state\<rparr>
               else build_records st ! i))"
  using assms by (auto simp: BuildRecord_update_state_def)

text \<open>
  Claim C10, at the input where the code leaves it.  \<^verbatim>\<open>BuildNode.update_state\<close> raises
  \<^verbatim>\<open>AttributeError\<close> for every store, node and state, and writes neither the row nor
  the cached object: the state field it should set is not set.
\<close>

theorem BuildNode_update_state_raises:
  "BuildNode_update_state st self new_state = (Inl (AttributeError ''id''), st, self)"
  by (simp add: BuildNode_update_state_def BuildNode_id_def)

text \<open>
  Claim C3, at the input where the code leaves it.  The first statement of \<^verbatim>\<open>build\<close>
  is \<^verbatim>\<open>self.update_state(BuildNode.BUILDING)\<close>, before the \<^verbatim>\<open>try\<close>: for every
  world, state, node and record, \<^verbatim>\<open>build\<close> raises \<^verbatim>\<open>AttributeError\<close> to its caller
  and leaves the store, the node and the record as they were, so the record is not marked
  \<open>SUCCESFULLY_BUILT\<close> and the node is not marked \<open>SHUTTING_DOWN\<close>.
\<close>

theorem build_raises:
  "build w s self build_record = Some (Inl (AttributeError ''id''), s, self, build_record)"
  by (simp add: build_def BuildNode_update_state_def BuildNode_id_def)

section \<open>Verification: the connectivity wait\<close>

lemma run_cmd_frame:
  "run_cmd w s self cmd = (r, s') \<Longrightarrow> s' = s\<lparr>tick := tick s + 1\<rparr>"
  by (auto simp: run_cmd_def Let_def split: ssh_reply.splits sum.splits)

lemma run_cmd_logged_frame:
  assumes "run_cmd_logged w s self cmd = Some (r, s')"
  shows "db s' = db s \<and> tick s' = tick s + 1 \<and> slept s' = slept s"
proof -
  obtain chunks ending s1 where rc: "run_cmd w s self cmd = ((chunks, ending), s1)"
    by (metis surj_pair)
  then have s1: "s1 = s\<lparr>tick := tick s + 1\<rparr>" by (rule run_cmd_frame)
  obtain out lbuf lg where c: "consume (bn_name self) chunks [] [] (logged s1) = (out, lbuf, lg)"
    by (metis surj_pair)
  obtain ls lbuf' where l: "log_whole_lines lbuf = (ls, lbuf')" by (metis surj_pair)
  show ?thesis
    using assms rc c l s1
    by (auto simp: run_cmd_logged_def split: option.splits sum.splits)
qed

lemma probe_refused:
  assumes "unreachable (ssh w (tick s))"
  shows "\<exists>e'. run_cmd_logged w s self cmd = Some (Inl e', s\<lparr>tick := tick s + 1\<rparr>)"
  using assms
  by (cases "ssh w (tick s)")
     (auto simp: run_cmd_logged_def run_cmd_def Let_def split: sum.splits)

lemma probe_accepted:
  assumes "ssh w (tick s) = Channel [Exit 0]" "keypair (db s) self = Inr kp"
  shows "run_cmd_logged w s self cmd =
           Some (Inr [], s\<lparr>tick := tick s + 1, logged := logged s @ [log_line (bn_name self) []]\<rparr>)"
  using assms
  by (simp add: run_cmd_logged_def run_cmd_def Let_def log_whole_lines.simps)

lemma wait_exits_on_success:
  "wait_for_node w self s = Some s' \<Longrightarrow>
     (\<exists>s0 out. run_cmd_logged w s0 self ''id'' = Some (Inr out, s')) \<and> db s' = db s"
proof (induction rule: wait_for_node.raw_induct[rotated 1, consumes 1])
  case (1 wait w self s s')
  show ?case
  proof (cases "run_cmd_logged w s self ''id''")
    case None
    then show ?thesis using 1(2) by simp
  next
    case (Some a)
    obtain r s1 where a: "a = (r, s1)" by (cases a)
    have f: "db s1 = db s" using run_cmd_logged_frame Some a by blast
    show ?thesis
    proof (cases r)
      case (Inr out)
      then have "s' = s1" using 1(2) Some a by simp
      then have "run_cmd_logged w s self ''id'' = Some (Inr out, s')"
        using Some a Inr by simp
      moreover have "db s' = db s" using f \<open>s' = s1\<close> by simp
      ultimately show ?thesis by blast
    next
      case (Inl e)
      then have "wait w self (s1\<lparr>slept := slept s1 + 5\<rparr>) = Some s'"
        using 1(2) Some a by simp
      from 1(1)[OF this] f show ?thesis by simp
    qed
  qed
qed

lemma wait_never_accepted:
  assumes "\<forall>n. unreachable (ssh w n)"
  shows "wait_for_node w self s = None"
proof -
  have "wait_for_node w' self' s0 = Some s' \<Longrightarrow> (\<forall>n. unreachable (ssh w' n)) \<longrightarrow> False"
    for w' self' s0 s'
  proof (induction rule: wait_for_node.raw_induct[rotated 1, consumes 1])
    case (1 wait w self s s')
    show ?case
    proof
      assume never: "\<forall>n. unreachable (ssh w n)"
      then have "unreachable (ssh w (tick s))" by blast
      from probe_refused[OF this, of self "''id''"]
      obtain e' where "run_cmd_logged w s self ''id'' = Some (Inl e', s\<lparr>tick := tick s + 1\<rparr>)"
        by blast
      then have "wait w self (s\<lparr>tick := tick s + 1\<rparr>\<lparr>slept := slept (s\<lparr>tick := tick s + 1\<rparr>) + 5\<rparr>) = Some s'"
        using 1(2) by simp
      from 1(1)[OF this] never show False by blast
    qed
  qed
  then have "wait_for_node w self s \<noteq> Some s'" for s'
    using assms by blast
  then show ?thesis by (cases "wait_for_node w self s") auto
qed

lemma wait_retries:
  assumes "\<forall>n<k. unreachable (ssh w (tick s + n))"
    and "ssh w (tick s + k) = Channel [Exit 0]"
    and "keypair (db s) self = Inr kp"
  shows "\<exists>s'. wait_for_node w self s = Some s' \<and> slept s' = slept s + 5 * k \<and>
              db s' = db s \<and> tick s' = tick s + k + 1"
  using assms
proof (induction k arbitrary: s)
  case 0
  then have "ssh w (tick s) = Channel [Exit 0]" by simp
  from probe_accepted[OF this 0(3), of "''id''"] show ?case
    by (subst wait_for_node.simps) simp
next
  case (Suc k)
  from Suc.prems(1) have "unreachable (ssh w (tick s))" by force
  from probe_refused[OF this, of self "''id''"]
  obtain e' where p: "run_cmd_logged w s self ''id'' = Some (Inl e', s\<lparr>tick := tick s + 1\<rparr>)"
    by blast
  let ?s1 = "s\<lparr>tick := tick s + 1, slept := slept s + 5\<rparr>"
  have w1: "wait_for_node w self s = wait_for_node w self ?s1"
    using p by (subst wait_for_node.simps) simp
  have a: "\<forall>n<k. unreachable (ssh w (tick ?s1 + n))"
  proof (intro allI impI)
    fix n assume "n < k"
    then have "Suc n < Suc k" by simp
    with Suc.prems(1) have "unreachable (ssh w (tick s + Suc n))" by blast
    then show "unreachable (ssh w (tick ?s1 + n))" by simp
  qed
  have b: "ssh w (tick ?s1 + k) = Channel [Exit 0]" using Suc.prems(2) by simp
  have c: "keypair (db ?s1) self = Inr kp" using Suc.prems(3) by simp
  from Suc.IH[OF a b c] w1 show ?case by auto
qed

text \<open>
  Claim C9.  The wait at the start of \<^verbatim>\<open>prepare\<close> ends only with a probe that
  returned normally, and it leaves the store as it was.  If the node never accepts a
  connection, the wait never ends, and neither does \<^verbatim>\<open>prepare\<close>.  Whatever a probe
  raises, the loop sleeps 5 seconds and starts again, with the store untouched: the node
  is not deleted.  There is no ceiling: whatever the number \<open>k\<close> of refused connections
  before the first accepted one, the wait retries \<open>k\<close> times, sleeps 5 seconds after each
  failure, and then ends.
\<close>

theorem connectivity_wait_unbounded:
  "(\<forall>s'. wait_for_node w self s = Some s' \<longrightarrow>
      (\<exists>s0 out. run_cmd_logged w s0 self ''id'' = Some (Inr out, s')) \<and> db s' = db s)
   \<and> ((\<forall>n. unreachable (ssh w n)) \<longrightarrow>
        wait_for_node w self s = None \<and> prepare w s self build_record = None)
   \<and> (\<forall>e s1. run_cmd_logged w s self ''id'' = Some (Inl e, s1) \<longrightarrow>
          wait_for_node w self s = wait_for_node w self (s1\<lparr>slept := slept s1 + 5\<rparr>) \<and>
          db s1 = db s)
   \<and> (\<forall>k kp. (\<forall>n<k. unreachable (ssh w (tick s + n))) \<and>
          ssh w (tick s + k) = Channel [Exit 0] \<and> keypair (db s) self = Inr kp \<longrightarrow>
          (\<exists>s'. wait_for_node w self s = Some s' \<and> slept s' = slept s + 5 * k \<and>
                db s' = db s \<and> tick s' = tick s + k + 1))"
proof (intro conjI allI impI)
  fix s' assume "wait_for_node w self s = Some s'"
  then have "(\<exists>s0 out. run_cmd_logged w s0 self ''id'' = Some (Inr out, s')) \<and> db s' = db s"
    by (rule wait_exits_on_success)
  then show "\<exists>s0 out. run_cmd_logged w s0 self ''id'' = Some (Inr out, s')" and "db s' = db s"
    by simp_all
next
  assume never: "\<forall>n. unreachable (ssh w n)"
  then show "wait_for_node w self s = None" by (rule wait_never_accepted)
  from never have "wait_for_node w (self\<lparr>bn_state := BOOTING\<rparr>)
                     (s\<lparr>db := BuildNode_save (db s) (self\<lparr>bn_state := BOOTING\<rparr>)\<rparr>) = None"
    by (rule wait_never_accepted)
  then show "prepare w s self build_record = None"
    by (simp add: prepare_def prepare_try_def Let_def)
next
  fix e s1 assume p: "run_cmd_logged w s self ''id'' = Some (Inl e, s1)"
  then show "wait_for_node w self s = wait_for_node w self (s1\<lparr>slept := slept s1 + 5\<rparr>)"
    by (subst wait_for_node.simps) simp
  from p show "db s1 = db s" using run_cmd_logged_frame by blast
next
  fix k kp
  assume a: "(\<forall>n<k. unreachable (ssh w (tick s + n))) \<and>
          ssh w (tick s + k) = Channel [Exit 0] \<and> keypair (db s) self = Inr kp"
  then show "\<exists>s'. wait_for_node w self s = Some s' \<and> slept s' = slept s + 5 * k \<and>
                db s' = db s \<and> tick s' = tick s + k + 1"
    using wait_retries[of k w s self kp] by blast
qed

text \<open>
  \<open>slow_boot\<close> refuses two connections: the wait ends after 10 seconds of sleep and three
  probes.  \<open>quiet_world\<close> refuses them all: the wait never ends.
\<close>

theorem connectivity_wait_unbounded_witness:
  "wait_for_node quiet_world (mk_node ''buildd-7'' BOOTING '''') (at_start leased) = None \<and>
   prepare quiet_world (at_start leased) (mk_node ''buildd-7'' NEW '''')
     (mk_record 1 10 NEEDS_BUILDING (Some ''buildd-7'')) = None \<and>
   (\<exists>s'. wait_for_node slow_boot (mk_node ''buildd-7'' BOOTING '''') (at_start leased) = Some s'
         \<and> slept s' = 10 \<and> db s' = leased \<and> tick s' = 3)"
proof -
  have q: "\<forall>n. unreachable (ssh quiet_world n)"
    by (simp add: quiet_world_def)
  have k2: "(\<forall>n<2. unreachable (ssh slow_boot (tick (at_start leased) + n))) \<and>
            ssh slow_boot (tick (at_start leased) + 2) = Channel [Exit 0] \<and>
            keypair (db (at_start leased)) (mk_node ''buildd-7'' BOOTING '''')
              = Inr \<lparr>kp_id = 1, kp_cloud = ''cloud-a'', kp_name = ''buildd-3'',
                     private_key = ''PRIVATE'', public_key = ''PUBLIC''\<rparr>"
    by (simp add: slow_boot_def quiet_world_def at_start_def keypair_def leased_def mk_node_def)
  from connectivity_wait_unbounded[of quiet_world "mk_node ''buildd-7'' BOOTING ''''"
      "at_start leased"] q
  have a: "wait_for_node quiet_world (mk_node ''buildd-7'' BOOTING '''') (at_start leased) = None"
    by blast
  from connectivity_wait_unbounded[of quiet_world "mk_node ''buildd-7'' NEW ''''"
      "at_start leased" "mk_record 1 10 NEEDS_BUILDING (Some ''buildd-7'')"] q
  have b: "prepare quiet_world (at_start leased) (mk_node ''buildd-7'' NEW '''')
             (mk_record 1 10 NEEDS_BUILDING (Some ''buildd-7'')) = None"
    by blast
  from connectivity_wait_unbounded[of slow_boot "mk_node ''buildd-7'' BOOTING ''''"
      "at_start leased"] k2
  have "\<exists>s'. wait_for_node slow_boot (mk_node ''buildd-7'' BOOTING '''') (at_start leased) = Some s'
         \<and> slept s' = slept (at_start leased) + 5 * 2 \<and> db s' = db (at_start leased)
         \<and> tick s' = tick (at_start leased) + 2 + 1"
    by blast
  then have c: "\<exists>s'. wait_for_node slow_boot (mk_node ''buildd-7'' BOOTING '''') (at_start leased)
                    = Some s' \<and> slept s' = 10 \<and> db s' = leased \<and> tick s' = 3"
    by (simp add: at_start_def numeral_3_eq_3)
  from a b c show ?thesis by simp
qed

section \<open>Verification: teardown\<close>

lemma cloud_do_db: "cloud_do w s = (r, s') \<Longrightarrow> db s' = db s"
  by (auto simp: cloud_do_def)

lemma local_do_db: "local_do w s = (r, s') \<Longrightarrow> db s' = db s"
  by (auto simp: local_do_def)

lemma and_then_db:
  assumes "and_then m f = (r, s')"
    and "\<And>r1 s1. m = (r1, s1) \<Longrightarrow> db s1 = d"
    and "\<And>a s1 r2 s2. db s1 = d \<Longrightarrow> f a s1 = (r2, s2) \<Longrightarrow> db s2 = d"
  shows "db s' = d"
proof -
  obtain r1 s1 where m: "m = (r1, s1)" by (cases m)
  have d1: "db s1 = d" using assms(2) m by simp
  show ?thesis
  proof (cases r1)
    case (Inl e)
    then show ?thesis using assms(1) m d1 by (simp add: and_then_def)
  next
    case (Inr a)
    then have "f a s1 = (r, s')" using assms(1) m by (simp add: and_then_def)
    then show ?thesis using assms(3) d1 by blast
  qed
qed

lemma cloud_calls_db: "cloud_calls n w s = (r, s') \<Longrightarrow> db s' = db s"
proof (induction n arbitrary: s)
  case 0
  then show ?case by simp
next
  case (Suc n)
  obtain r1 s1 where c: "cloud_do w s = (r1, s1)" by (cases "cloud_do w s")
  then have d: "db s1 = db s" by (rule cloud_do_db)
  show ?case
  proof (cases r1)
    case (Inl e)
    then show ?thesis using Suc.prems c d by (simp add: and_then_def)
  next
    case (Inr u)
    then have "cloud_calls n w s1 = (r, s')" using Suc.prems c by (simp add: and_then_def)
    then show ?thesis using Suc.IH d by simp
  qed
qed

lemma unicode_self_db: "unicode_self self s = (r, s') \<Longrightarrow> db s' = db s"
  by (auto simp: unicode_self_def split: option.splits)

text \<open>With floating addresses the branch never gets past the log line of 750.\<close>

lemma release_floating_ip_raises:
  "\<exists>e s'. release_floating_ip w s self = (Inl e, s') \<and> db s' = db s"
proof -
  obtain r1 s1 where a: "cloud_calls 2 w s = (r1, s1)" by (metis surj_pair)
  have d1: "db s1 = db s" using cloud_calls_db[OF a] .
  show ?thesis
  proof (cases r1)
    case (Inl e)
    then show ?thesis using a d1 by (simp add: release_floating_ip_def and_then_def)
  next
    case (Inr u1)
    show ?thesis
    proof (cases "o_name self")
      case None
      then show ?thesis using a d1 Inr
        by (simp add: release_floating_ip_def and_then_def unicode_self_def)
    next
      case (Some n)
      obtain r2 s2 where b: "cloud_calls 2 w s1 = (r2, s2)" by (metis surj_pair)
      have d2: "db s2 = db s" using cloud_calls_db[OF b] d1 by simp
      show ?thesis
      proof (cases r2)
        case (Inl e)
        then show ?thesis using a b d2 Some \<open>r1 = Inr u1\<close>
          by (simp add: release_floating_ip_def and_then_def unicode_self_def)
      next
        case (Inr u2)
        then show ?thesis using a b d2 Some \<open>r1 = Inr u1\<close>
          by (simp add: release_floating_ip_def and_then_def unicode_self_def
              log_deleting_floating_ip_def)
      qed
    qed
  qed
qed

lemma delete_calls_floating:
  assumes "USE_FLOATING_IPS w"
  shows "\<exists>e s'. delete_calls w s self = (Inl e, s') \<and> db s' = db s"
proof -
  from release_floating_ip_raises[of w s self]
  obtain e s' where "release_floating_ip w s self = (Inl e, s')" "db s' = db s" by blast
  then show ?thesis using assms by (simp add: delete_calls_def and_then_def)
qed

lemma delete_calls_plain:
  assumes "\<not> USE_FLOATING_IPS w"
  shows "delete_calls w s self =
           (case o_name self of
              None \<Rightarrow> (Inl TypeError, s)
            | Some n \<Rightarrow>
                and_then (cloud_calls 2 w s)
                  (\<lambda>u s3. and_then (if o_signing_key_id self \<noteq> []
                                     then and_then (local_do w s3) (\<lambda>out s. (Inr (), s))
                                     else (Inr (), s3))
                  (\<lambda>u s4. (Inr n, s4))))"
  using assms
  by (simp add: delete_calls_def and_then_def unicode_self_def split: option.splits)

lemma keyring_step_db:
  assumes "(if o_signing_key_id self \<noteq> []
            then and_then (local_do w s3) (\<lambda>out s. (Inr (), s))
            else (Inr (), s3)) = (r, s')"
  shows "db s' = db s3"
proof (cases "o_signing_key_id self \<noteq> []")
  case False
  then show ?thesis using assms by simp
next
  case True
  obtain r3 s4 where l: "local_do w s3 = (r3, s4)" by (metis surj_pair)
  then have "db s4 = db s3" by (rule local_do_db)
  moreover have "s' = s4" using assms True l by (cases r3) (simp_all add: and_then_def)
  ultimately show ?thesis by simp
qed

lemma delete_calls_db:
  assumes "delete_calls w s self = (r, s')"
  shows "db s' = db s"
proof (cases "USE_FLOATING_IPS w")
  case True
  from delete_calls_floating[OF True, of s self] assms show ?thesis by auto
next
  case False
  show ?thesis
  proof (cases "o_name self")
    case None
    then show ?thesis using assms delete_calls_plain[OF False, of s self] by simp
  next
    case (Some n)
    then have e: "and_then (cloud_calls 2 w s)
                  (\<lambda>u s3. and_then (if o_signing_key_id self \<noteq> []
                                     then and_then (local_do w s3) (\<lambda>out s. (Inr (), s))
                                     else (Inr (), s3))
                  (\<lambda>u s4. (Inr n, s4))) = (r, s')"
      using assms delete_calls_plain[OF False, of s self] by simp
    obtain r1 s1 where a: "cloud_calls 2 w s = (r1, s1)" by (metis surj_pair)
    have d1: "db s1 = db s" using cloud_calls_db[OF a] .
    show ?thesis
    proof (cases r1)
      case (Inl e1)
      then show ?thesis using e a d1 by (simp add: and_then_def)
    next
      case (Inr u1)
      obtain r2 s2 where b: "(if o_signing_key_id self \<noteq> []
            then and_then (local_do w s1) (\<lambda>out s. (Inr (), s))
            else (Inr (), s1)) = (r2, s2)" by (metis surj_pair)
      have d2: "db s2 = db s" using keyring_step_db[OF b] d1 by simp
      have "s' = s2" using e a b Inr by (cases r2) (simp_all add: and_then_def)
      then show ?thesis using d2 by simp
    qed
  qed
qed

lemma delete_calls_name:
  assumes "delete_calls w s self = (Inr n, s')"
  shows "o_name self = Some n \<and> \<not> USE_FLOATING_IPS w"
proof -
  have f: "\<not> USE_FLOATING_IPS w"
    using delete_calls_floating[of w s self] assms by auto
  show ?thesis
  proof (cases "o_name self")
    case None
    then show ?thesis using assms delete_calls_plain[OF f, of s self] by simp
  next
    case (Some m)
    then have e: "and_then (cloud_calls 2 w s)
                  (\<lambda>u s3. and_then (if o_signing_key_id self \<noteq> []
                                     then and_then (local_do w s3) (\<lambda>out s. (Inr (), s))
                                     else (Inr (), s3))
                  (\<lambda>u s4. (Inr m, s4))) = (Inr n, s')"
      using assms delete_calls_plain[OF f, of s self] by simp
    obtain r1 s1 where a: "cloud_calls 2 w s = (r1, s1)" by (metis surj_pair)
    obtain r2 s2 where b: "(if o_signing_key_id self \<noteq> []
            then and_then (local_do w s1) (\<lambda>out s. (Inr (), s))
            else (Inr (), s1)) = (r2, s2)" by (metis surj_pair)
    have "m = n" using e a b by (cases r1; cases r2) (simp_all add: and_then_def)
    then show ?thesis using Some f by simp
  qed
qed

text \<open>
  The outcomes of \<^verbatim>\<open>delete\<close>: it returns with the node torn down in the store and the
  name of the object reset, or it raises and neither the store nor the object has
  changed.
\<close>

lemma delete_outcome:
  assumes "delete w s self = (r, s', self')"
  shows "(\<exists>n. r = Inr () \<and> o_name self = Some n \<and> \<not> USE_FLOATING_IPS w \<and>
              db s' = teardown (db s) n \<and> self' = self\<lparr>o_name := None\<rparr>)
       \<or> ((\<exists>e. r = Inl e) \<and> db s' = db s \<and> self' = self)"
proof -
  obtain r0 s0 where c: "delete_calls w s self = (r0, s0)" by (metis surj_pair)
  have d0: "db s0 = db s" using delete_calls_db[OF c] .
  show ?thesis
  proof (cases r0)
    case (Inl e)
    then have "r = Inl e" "s' = s0" "self' = self"
      using assms c by (simp_all add: delete_def)
    then show ?thesis using d0 by simp
  next
    case (Inr n)
    then have nm: "o_name self = Some n \<and> \<not> USE_FLOATING_IPS w"
      using delete_calls_name c by blast
    have "r = Inr ()" "s' = s0\<lparr>db := Model_delete (clear_node_refs (db s0) n) n\<rparr>"
      "self' = self\<lparr>o_name := None\<rparr>"
      using assms c Inr by (simp_all add: delete_def)
    then show ?thesis using nm d0 by (simp add: teardown_def)
  qed
qed

lemma delete_floating_raises:
  assumes "USE_FLOATING_IPS w"
  shows "\<exists>e. fst (delete w s self) = Inl e"
proof -
  obtain r s' self' where d: "delete w s self = (r, s', self')" by (metis prod_cases3)
  from delete_outcome[OF d] assms show ?thesis using d by auto
qed

lemma delete_unnamed:
  assumes "o_name self = None"
  shows "(\<exists>e. fst (delete w s self) = Inl e) \<and> db (fst (snd (delete w s self))) = db s \<and>
         snd (snd (delete w s self)) = self \<and>
         (\<not> USE_FLOATING_IPS w \<longrightarrow> delete w s self = (Inl TypeError, s, self))"
proof -
  obtain r s' self' where d: "delete w s self = (r, s', self')" by (metis prod_cases3)
  from delete_outcome[OF d] assms
  have a: "(\<exists>e. r = Inl e) \<and> db s' = db s \<and> self' = self" by auto
  have b: "\<not> USE_FLOATING_IPS w \<longrightarrow> delete w s self = (Inl TypeError, s, self)"
    using assms by (simp add: delete_def delete_calls_plain)
  from a b d show ?thesis by simp
qed

lemma teardown_records:
  "build_records (teardown st n) =
     map (\<lambda>r. if build_node r = Some n then r\<lparr>build_node := None\<rparr> else r) (build_records st)"
proof -
  let ?g = "\<lambda>r. if build_node r = Some n then r\<lparr>build_node := None\<rparr> else r"
  have "\<forall>x \<in> set (map ?g (build_records st)). build_node x \<noteq> Some n"
    by auto
  then have "filter (\<lambda>r. build_node r \<noteq> Some n) (map ?g (build_records st))
               = map ?g (build_records st)"
    by (simp only: filter_True)
  then show ?thesis by (simp add: teardown_def Model_delete_def clear_node_refs_def)
qed

lemma teardown_nodes:
  "build_nodes (teardown st n) = filter (\<lambda>x. bn_name x \<noteq> n) (build_nodes st)"
  by (simp add: teardown_def Model_delete_def clear_node_refs_def)

lemma teardown_others:
  "key_pairs (teardown st n) = key_pairs st \<and> clouds (teardown st n) = clouds st"
  by (simp add: teardown_def Model_delete_def clear_node_refs_def)

lemma teardown_clean:
  "(\<forall>r \<in> set (build_records (teardown st n)). build_node r \<noteq> Some n) \<and>
   n \<notin> set (map bn_name (build_nodes (teardown st n)))"
  by (auto simp: teardown_records teardown_nodes)

lemma cloud_calls_ok:
  "\<forall>n \<ge> tick s. cloud_call w n = None \<Longrightarrow> cloud_calls k w s = (Inr (), s\<lparr>tick := tick s + k\<rparr>)"
proof (induction k arbitrary: s)
  case 0
  then show ?case by simp
next
  case (Suc k)
  have c: "cloud_do w s = (Inr (), s\<lparr>tick := tick s + 1\<rparr>)"
    using Suc.prems by (simp add: cloud_do_def)
  have "\<forall>n \<ge> tick (s\<lparr>tick := tick s + 1\<rparr>). cloud_call w n = None"
    using Suc.prems by simp
  from Suc.IH[OF this] c show ?case by (simp add: and_then_def)
qed

lemma delete_ok:
  assumes "\<not> USE_FLOATING_IPS w" "o_name self = Some n"
    and "\<forall>k \<ge> tick s. cloud_call w k = None \<and> (\<exists>out. local_cmd w k = Inr out)"
  shows "fst (delete w s self) = Inr ()"
proof -
  have c: "\<forall>k \<ge> tick s. cloud_call w k = None" using assms(3) by blast
  have k: "cloud_calls 2 w s = (Inr (), s\<lparr>tick := tick s + 2\<rparr>)"
    using cloud_calls_ok[OF c] .
  obtain out where "local_cmd w (tick s + 2) = Inr out" using assms(3) by force
  then have l: "local_do w (s\<lparr>tick := tick s + 2\<rparr>) = (Inr out, s\<lparr>tick := tick s + 2 + 1\<rparr>)"
    by (simp add: local_do_def)
  show ?thesis
    using assms(2) k l
    by (simp add: delete_def delete_calls_plain[OF assms(1)] and_then_def)
qed

text \<open>
  Claim C6, as amended.  Where floating addresses are not in use, a teardown of a node
  that has its name, whose calls to the cloud and to the keyring raise nothing, does not
  raise.  After a teardown that did not raise, no build record refers to the node, the
  node has no row, the build records are the old ones with the references to this node
  set to null, and the name of the object is \<^verbatim>\<open>None\<close>.  The teardown is not
  idempotent: a second teardown of the same object raises, in any world and whatever the
  cloud answers, and leaves the store as the first one left it; where floating addresses
  are not in use it raises \<^verbatim>\<open>TypeError\<close> at its first log line, before any call to the
  cloud.
\<close>

theorem delete_teardown:
  "((\<not> USE_FLOATING_IPS w \<and> o_name self \<noteq> None \<and>
     (\<forall>k \<ge> tick s. cloud_call w k = None \<and> (\<exists>out. local_cmd w k = Inr out)))
       \<longrightarrow> fst (delete w s self) = Inr ())
   \<and> (fst (delete w s self) = Inr () \<longrightarrow>
        (\<exists>n. o_name self = Some n
           \<and> (\<forall>r \<in> set (build_records (db (fst (snd (delete w s self))))).
                 build_node r \<noteq> Some n)
           \<and> n \<notin> set (map bn_name (build_nodes (db (fst (snd (delete w s self))))))
           \<and> build_records (db (fst (snd (delete w s self)))) =
               map (\<lambda>r. if build_node r = Some n then r\<lparr>build_node := None\<rparr> else r)
                   (build_records (db s))
           \<and> build_nodes (db (fst (snd (delete w s self)))) =
               filter (\<lambda>x. bn_name x \<noteq> n) (build_nodes (db s)))
        \<and> o_name (snd (snd (delete w s self))) = None
        \<and> (\<forall>w2 (s2::sys).
              (\<exists>e. fst (delete w2 s2 (snd (snd (delete w s self)))) = Inl e)
              \<and> db (fst (snd (delete w2 s2 (snd (snd (delete w s self)))))) = db s2
              \<and> (\<not> USE_FLOATING_IPS w2 \<longrightarrow>
                   delete w2 s2 (snd (snd (delete w s self)))
                     = (Inl TypeError, s2, snd (snd (delete w s self))))))"
proof -
  obtain r s' self' where d: "delete w s self = (r, s', self')" by (metis prod_cases3)
  have e: "fst (delete w s self) = r" "fst (snd (delete w s self)) = s'"
    "snd (snd (delete w s self)) = self'"
    by (simp_all add: d)
  have c1: "(\<not> USE_FLOATING_IPS w \<and> o_name self \<noteq> None \<and>
     (\<forall>k \<ge> tick s. cloud_call w k = None \<and> (\<exists>out. local_cmd w k = Inr out)))
       \<longrightarrow> r = Inr ()"
  proof
    assume a: "\<not> USE_FLOATING_IPS w \<and> o_name self \<noteq> None \<and>
     (\<forall>k \<ge> tick s. cloud_call w k = None \<and> (\<exists>out. local_cmd w k = Inr out))"
    then obtain n where "o_name self = Some n" by auto
    with a have "fst (delete w s self) = Inr ()" using delete_ok by blast
    then show "r = Inr ()" by (simp only: e)
  qed
  have c2: "r = Inr () \<longrightarrow>
        (\<exists>n. o_name self = Some n
           \<and> (\<forall>r \<in> set (build_records (db s')). build_node r \<noteq> Some n)
           \<and> n \<notin> set (map bn_name (build_nodes (db s')))
           \<and> build_records (db s') =
               map (\<lambda>r. if build_node r = Some n then r\<lparr>build_node := None\<rparr> else r)
                   (build_records (db s))
           \<and> build_nodes (db s') = filter (\<lambda>x. bn_name x \<noteq> n) (build_nodes (db s)))
        \<and> o_name self' = None
        \<and> (\<forall>w2 (s2::sys).
              (\<exists>e. fst (delete w2 s2 self') = Inl e)
              \<and> db (fst (snd (delete w2 s2 self'))) = db s2
              \<and> (\<not> USE_FLOATING_IPS w2 \<longrightarrow> delete w2 s2 self' = (Inl TypeError, s2, self')))"
  proof
    assume r: "r = Inr ()"
    from delete_outcome[OF d] r obtain n where n: "o_name self = Some n"
      and t: "db s' = teardown (db s) n" and o: "self' = self\<lparr>o_name := None\<rparr>"
      by auto
    have p1: "\<forall>r \<in> set (build_records (db s')). build_node r \<noteq> Some n"
      using teardown_clean[of "db s" n] by (simp only: t) blast
    have p2: "n \<notin> set (map bn_name (build_nodes (db s')))"
      using teardown_clean[of "db s" n] by (simp only: t) blast
    have p3: "build_records (db s') =
               map (\<lambda>r. if build_node r = Some n then r\<lparr>build_node := None\<rparr> else r)
                   (build_records (db s))"
      by (simp only: t teardown_records)
    have p4: "build_nodes (db s') = filter (\<lambda>x. bn_name x \<noteq> n) (build_nodes (db s))"
      by (simp only: t teardown_nodes)
    have un: "o_name self' = None" using o by simp
    have p5: "\<forall>w2 (s2::sys).
              (\<exists>e. fst (delete w2 s2 self') = Inl e)
              \<and> db (fst (snd (delete w2 s2 self'))) = db s2
              \<and> (\<not> USE_FLOATING_IPS w2 \<longrightarrow> delete w2 s2 self' = (Inl TypeError, s2, self'))"
      using delete_unnamed[OF un] by blast
    from n p1 p2 p3 p4 un p5
    show "(\<exists>n. o_name self = Some n
           \<and> (\<forall>r \<in> set (build_records (db s')). build_node r \<noteq> Some n)
           \<and> n \<notin> set (map bn_name (build_nodes (db s')))
           \<and> build_records (db s') =
               map (\<lambda>r. if build_node r = Some n then r\<lparr>build_node := None\<rparr> else r)
                   (build_records (db s))
           \<and> build_nodes (db s') = filter (\<lambda>x. bn_name x \<noteq> n) (build_nodes (db s)))
        \<and> o_name self' = None
        \<and> (\<forall>w2 (s2::sys).
              (\<exists>e. fst (delete w2 s2 self') = Inl e)
              \<and> db (fst (snd (delete w2 s2 self'))) = db s2
              \<and> (\<not> USE_FLOATING_IPS w2 \<longrightarrow> delete w2 s2 self' = (Inl TypeError, s2, self')))"
      by (intro conjI exI[of _ n])
  qed
  from c1 c2 show ?thesis by (simp only: e) 
qed

text \<open>
  The first teardown of the leased node, in a world where the cloud and the keyring never
  fail and floating addresses are not in use.
\<close>

lemma first_delete:
  "delete quiet_world (at_start leased) (instance_of (mk_node ''buildd-7'' NEW ''''))
     = (Inr (), \<lparr>db = torn_down, tick = 2, slept = 0, logged = []\<rparr>,
        (instance_of (mk_node ''buildd-7'' NEW ''''))\<lparr>o_name := None\<rparr>)"
  by (simp add: delete_def delete_calls_def unicode_self_def instance_of_def and_then_def
      cloud_do_def quiet_world_def at_start_def mk_node_def leased_def torn_down_def
      Model_delete_def clear_node_refs_def mk_record_def numeral_2_eq_2)

text \<open>
  The claim as stated fails: the first teardown returns and resets the name of the
  object; the second teardown of the same object, in the same world, where the cloud
  still answers every call, raises \<^verbatim>\<open>TypeError\<close> at the log line of 754, with no call
  to the cloud made.
\<close>

theorem delete_twice_raises:
  "fst (delete quiet_world (at_start leased) (instance_of (mk_node ''buildd-7'' NEW '''')))
     = Inr () \<and>
   delete quiet_world
     (fst (snd (delete quiet_world (at_start leased)
                  (instance_of (mk_node ''buildd-7'' NEW '''')))))
     (snd (snd (delete quiet_world (at_start leased)
                  (instance_of (mk_node ''buildd-7'' NEW '''')))))
     = (Inl TypeError, \<lparr>db = torn_down, tick = 2, slept = 0, logged = []\<rparr>,
        (instance_of (mk_node ''buildd-7'' NEW ''''))\<lparr>o_name := None\<rparr>)"
  by (simp add: first_delete)
     (simp add: delete_def delete_calls_def unicode_self_def instance_of_def and_then_def
        quiet_world_def)

theorem delete_teardown_witness:
  "fst (delete quiet_world (at_start leased) (instance_of (mk_node ''buildd-7'' NEW '''')))
     = Inr () \<and>
   db (fst (snd (delete quiet_world (at_start leased)
                   (instance_of (mk_node ''buildd-7'' NEW ''''))))) = torn_down \<and>
   o_name (snd (snd (delete quiet_world (at_start leased)
                   (instance_of (mk_node ''buildd-7'' NEW ''''))))) = None \<and>
   fst (delete server_gone
          (fst (snd (delete quiet_world (at_start leased)
                       (instance_of (mk_node ''buildd-7'' NEW '''')))))
          (snd (snd (delete quiet_world (at_start leased)
                       (instance_of (mk_node ''buildd-7'' NEW ''''))))))
     = Inl TypeError"
proof -
  let ?n = "instance_of (mk_node ''buildd-7'' NEW '''')"
  let ?d = "delete quiet_world (at_start leased) ?n"
  note t = delete_teardown[of quiet_world ?n "at_start leased"]
  have h: "\<not> USE_FLOATING_IPS quiet_world \<and> o_name ?n \<noteq> None \<and>
           (\<forall>k \<ge> tick (at_start leased).
             cloud_call quiet_world k = None \<and> (\<exists>out. local_cmd quiet_world k = Inr out))"
    by (simp add: quiet_world_def instance_of_def)
  with t have ok: "fst ?d = Inr ()" by blast
  with t have un: "o_name (snd (snd ?d)) = None" by blast
  from t ok have "\<forall>w2 (s2::sys). \<not> USE_FLOATING_IPS w2 \<longrightarrow>
                   delete w2 s2 (snd (snd ?d)) = (Inl TypeError, s2, snd (snd ?d))"
    by blast
  moreover have "\<not> USE_FLOATING_IPS server_gone"
    by (simp add: server_gone_def quiet_world_def)
  ultimately have two: "fst (delete server_gone (fst (snd ?d)) (snd (snd ?d))) = Inl TypeError"
    by simp
  have d: "db (fst (snd ?d)) = torn_down" by (simp add: first_delete)
  from ok d un two show ?thesis by simp
qed

section \<open>Verification: prepare\<close>

lemma seq_db:
  assumes "seq m f = Some (r, s')"
    and "\<And>r1 s1. m = Some (r1, s1) \<Longrightarrow> db s1 = d"
    and "\<And>a s1 r2 s2. db s1 = d \<Longrightarrow> f a s1 = Some (r2, s2) \<Longrightarrow> db s2 = d"
  shows "db s' = d"
proof (cases m)
  case None
  then show ?thesis using assms(1) by (simp add: seq_def)
next
  case (Some p)
  obtain r1 s1 where p: "p = (r1, s1)" by (cases p)
  have d1: "db s1 = d" using assms(2) Some p by simp
  show ?thesis
  proof (cases r1)
    case (Inl e)
    then show ?thesis using assms(1) Some p d1 by (simp add: seq_def)
  next
    case (Inr a)
    then have "f a s1 = Some (r, s')" using assms(1) Some p by (simp add: seq_def)
    then show ?thesis using assms(3) d1 by blast
  qed
qed

lemma run_cmd_logged_db:
  "run_cmd_logged w s self cmd = Some (r, s') \<Longrightarrow> db s' = db s"
  using run_cmd_logged_frame by blast

lemma prepare_install_db:
  assumes "prepare_install w s self build_record = Some (r, s')"
  shows "db s' = db s"
  using assms unfolding prepare_install_def
  by (elim seq_db) (auto dest: run_cmd_logged_db)

lemma prepare_export_db:
  assumes "prepare_export w s self = Some (r, s')"
  shows "db s' = db s"
  using assms unfolding prepare_export_def
  by (elim seq_db) (auto dest: run_cmd_logged_db local_do_db)

lemma prepare_ready_result:
  assumes "prepare_ready w s self = (r, s', self')"
  shows "self' = self\<lparr>bn_state := READY\<rparr> \<and> db s' = BuildNode_save (db s) self'"
proof -
  let ?s5 = "s\<lparr>db := BuildNode_save (db s) (self\<lparr>bn_state := READY\<rparr>)\<rparr>"
  obtain r6 s6 where l: "local_do w ?s5 = (r6, s6)" by (metis surj_pair)
  then have "db s6 = db ?s5" by (rule local_do_db)
  then show ?thesis using assms l
    by (cases r6) (auto simp: prepare_ready_def Let_def)
qed

lemma prepare_key_result:
  assumes "prepare_key w s self out = Some (r, s', self')"
  shows "bn_name self' = bn_name self \<and>
         (db s' = db s \<or> db s' = BuildNode_save (db s) self') \<and>
         (r = Inr () \<longrightarrow> bn_state self' = READY \<and> db s' = BuildNode_save (db s) self')"
proof (cases "parse_key_id out")
  case (Inl e)
  then show ?thesis using assms by (auto simp add: prepare_key_def)
next
  case (Inr key_id)
  let ?self3 = "self\<lparr>signing_key_id := key_id\<rparr>"
  show ?thesis
  proof (cases "prepare_export w s ?self3")
    case None
    then show ?thesis using assms Inr by (simp add: prepare_key_def Let_def)
  next
    case (Some p)
    obtain r4 s4 where p: "p = (r4, s4)" by (cases p)
    have d4: "db s4 = db s" using prepare_export_db Some p by blast
    show ?thesis
    proof (cases r4)
      case (Inl e)
      then show ?thesis using assms Inr Some p d4 by (auto simp: prepare_key_def Let_def)
    next
      case (Inr imported)
      then have "prepare_ready w s4 ?self3 = (r, s', self')"
        using assms \<open>parse_key_id out = Inr key_id\<close> Some p by (simp add: prepare_key_def Let_def)
      from prepare_ready_result[OF this] d4 show ?thesis by simp
    qed
  qed
qed

lemma save_frame:
  "build_records (BuildNode_save st x) = build_records st \<and>
   key_pairs (BuildNode_save st x) = key_pairs st \<and>
   clouds (BuildNode_save st x) = clouds st"
  by (simp add: BuildNode_save_def)

lemma save_member: "x \<in> set (build_nodes (BuildNode_save st x))"
  by (auto simp: BuildNode_save_def)

lemma save_others:
  "bn_name x = n \<Longrightarrow>
   filter (\<lambda>y. bn_name y \<noteq> n) (build_nodes (BuildNode_save st x))
     = filter (\<lambda>y. bn_name y \<noteq> n) (build_nodes st)"
proof -
  assume n: "bn_name x = n"
  have "filter (\<lambda>y. bn_name y \<noteq> n) (map (\<lambda>y. if bn_name y = n then x else y) ys)
          = filter (\<lambda>y. bn_name y \<noteq> n) ys" for ys
    using n by (induction ys) auto
  then show ?thesis using n by (simp add: BuildNode_save_def)
qed

text \<open>Saving the node and tearing it down is tearing it down.\<close>

lemma teardown_save:
  "bn_name x = n \<Longrightarrow> teardown (BuildNode_save st x) n = teardown st n"
proof -
  assume n: "bn_name x = n"
  have "build_records (teardown (BuildNode_save st x) n) = build_records (teardown st n)"
    by (simp only: teardown_records save_frame)
  moreover have "build_nodes (teardown (BuildNode_save st x) n) = build_nodes (teardown st n)"
    using save_others[OF n] by (simp only: teardown_nodes)
  moreover have "key_pairs (teardown (BuildNode_save st x) n) = key_pairs (teardown st n)"
    "clouds (teardown (BuildNode_save st x) n) = clouds (teardown st n)"
    using teardown_others save_frame by simp_all
  ultimately show ?thesis by (simp add: store.equality)
qed

text \<open>
  What the body of the \<^verbatim>\<open>try\<close> leaves when it ends: the node keeps its name, only its
  own row has been written, and a body that ran through left the node \<open>READY\<close> with its
  row in the store.
\<close>

lemma prepare_try_result:
  assumes "prepare_try w s self build_record = Some (r, s', self')"
  shows "bn_name self' = bn_name self \<and>
         teardown (db s') (bn_name self) = teardown (db s) (bn_name self) \<and>
         build_records (db s') = build_records (db s) \<and>
         (r = Inr () \<longrightarrow> bn_state self' = READY \<and> self' \<in> set (build_nodes (db s')))"
proof (cases "wait_for_node w self s")
  case None
  then show ?thesis using assms by (simp add: prepare_try_def)
next
  case (Some s1)
  then have d1: "db s1 = db s" using wait_exits_on_success by blast
  let ?self2 = "self\<lparr>bn_state := PREPARING\<rparr>"
  let ?s2 = "s1\<lparr>db := BuildNode_save (db s1) ?self2\<rparr>"
  have n2: "bn_name ?self2 = bn_name self" by simp
  have t2: "teardown (db ?s2) (bn_name self) = teardown (db s) (bn_name self)"
    using teardown_save[OF n2, of "db s1"] d1 by simp
  have r2: "build_records (db ?s2) = build_records (db s)"
    using save_frame[of "db s1" ?self2] d1 by simp
  show ?thesis
  proof (cases "prepare_install w ?s2 ?self2 build_record")
    case None
    then show ?thesis using assms Some by (simp add: prepare_try_def Let_def)
  next
    case (Some p)
    obtain r3 s3 where p: "p = (r3, s3)" by (cases p)
    have d3: "db s3 = db ?s2" using prepare_install_db Some p by blast
    show ?thesis
    proof (cases r3)
      case (Inl e)
      then have "r = Inl e" "s' = s3" "self' = ?self2"
        using assms \<open>wait_for_node w self s = Some s1\<close> Some p
        by (simp_all add: prepare_try_def Let_def)
      then show ?thesis using d3 t2 r2 by simp
    next
      case (Inr out)
      then have k: "prepare_key w s3 ?self2 out = Some (r, s', self')"
        using assms \<open>wait_for_node w self s = Some s1\<close> Some p
        by (simp add: prepare_try_def Let_def)
      from prepare_key_result[OF k]
      have n: "bn_name self' = bn_name self"
        and c: "db s' = db s3 \<or> db s' = BuildNode_save (db s3) self'"
        and ok: "r = Inr () \<longrightarrow> bn_state self' = READY \<and> db s' = BuildNode_save (db s3) self'"
        by simp_all
      have t: "teardown (db s') (bn_name self) = teardown (db s) (bn_name self)"
        using c teardown_save[OF n, of "db s3"] d3 t2 by auto
      have rr: "build_records (db s') = build_records (db s)"
        using c save_frame[of "db s3" self'] d3 r2 by auto
      have m: "r = Inr () \<longrightarrow> bn_state self' = READY \<and> self' \<in> set (build_nodes (db s'))"
        using ok save_member[of self' "db s3"] by auto
      from n t rr m show ?thesis by simp
    qed
  qed
qed

text \<open>
  The same for the body as \<^verbatim>\<open>prepare\<close> starts it, after the state \<open>BOOTING\<close> has
  been saved, against the store \<^verbatim>\<open>prepare\<close> was called in.
\<close>

lemma prepare_body_result:
  assumes "prepare_try w (s\<lparr>db := BuildNode_save (db s) (self\<lparr>bn_state := BOOTING\<rparr>)\<rparr>)
             (self\<lparr>bn_state := BOOTING\<rparr>) build_record = Some (r, s2, self2)"
  shows "bn_name self2 = bn_name self \<and>
         teardown (db s2) (bn_name self) = teardown (db s) (bn_name self) \<and>
         build_records (db s2) = build_records (db s) \<and>
         (r = Inr () \<longrightarrow> bn_state self2 = READY \<and> self2 \<in> set (build_nodes (db s2)))"
proof -
  let ?self1 = "self\<lparr>bn_state := BOOTING\<rparr>"
  let ?s1 = "s\<lparr>db := BuildNode_save (db s) ?self1\<rparr>"
  have n1: "bn_name ?self1 = bn_name self" by simp
  have t1: "teardown (db ?s1) (bn_name self) = teardown (db s) (bn_name self)"
    using teardown_save[OF n1, of "db s"] by simp
  have r1: "build_records (db ?s1) = build_records (db s)"
    using save_frame[of "db s" ?self1] by simp
  from prepare_try_result[OF assms]
  have "bn_name self2 = bn_name ?self1"
    and "teardown (db s2) (bn_name ?self1) = teardown (db ?s1) (bn_name ?self1)"
    and "build_records (db s2) = build_records (db ?s1)"
    and "r = Inr () \<longrightarrow> bn_state self2 = READY \<and> self2 \<in> set (build_nodes (db s2))"
    by blast+
  then show ?thesis using t1 r1 n1 by simp
qed

text \<open>The teardown in the handler, when it returns.\<close>

lemma handler_teardown:
  assumes "prepare_try w (s\<lparr>db := BuildNode_save (db s) (self\<lparr>bn_state := BOOTING\<rparr>)\<rparr>)
             (self\<lparr>bn_state := BOOTING\<rparr>) build_record = Some (Inl e, s2, self2)"
    and "delete w s2 (instance_of self2) = (Inr (), s3, self3)"
  shows "db s3 = teardown (db s) (bn_name self) \<and> o_name self3 = None"
proof -
  from prepare_body_result[OF assms(1)]
  have n: "bn_name self2 = bn_name self"
    and t: "teardown (db s2) (bn_name self) = teardown (db s) (bn_name self)"
    by blast+
  from delete_outcome[OF assms(2)]
  obtain m where m: "o_name (instance_of self2) = Some m" and d: "db s3 = teardown (db s2) m"
    and o: "self3 = (instance_of self2)\<lparr>o_name := None\<rparr>"
    by auto
  have "m = bn_name self" using m n by (simp add: instance_of_def)
  then show ?thesis using d t o by simp
qed

lemma handler_teardown_ok:
  assumes "\<not> USE_FLOATING_IPS w"
    and "\<forall>k \<ge> tick s2. cloud_call w k = None \<and> (\<exists>out. local_cmd w k = Inr out)"
  shows "fst (delete w s2 (instance_of self2)) = Inr ()"
proof -
  have "o_name (instance_of self2) = Some (bn_name self2)" by (simp add: instance_of_def)
  from delete_ok[OF assms(1) this assms(2)] show ?thesis .
qed





section \<open>Verification: a failed prepare returns the record to the pending builds\<close>

lemma cleared_is_pending:
  assumes "r \<in> set (build_records st)" "build_node r = Some n"
    "br_state r = NEEDS_BUILDING"
  shows "r\<lparr>build_node := None\<rparr> \<in> set (pending_builds (teardown st n))"
proof -
  let ?g = "\<lambda>r. if build_node r = Some n then r\<lparr>build_node := None\<rparr> else r"
  have "r\<lparr>build_node := None\<rparr> = ?g r" using assms(2) by simp
  then have "r\<lparr>build_node := None\<rparr> \<in> ?g ` set (build_records st)"
    using assms(1) by (rule image_eqI)
  then have "r\<lparr>build_node := None\<rparr> \<in> set (build_records (teardown st n))"
    by (simp only: teardown_records set_map)
  then show ?thesis using assms(3) by (simp add: pending_builds_def)
qed

text \<open>
  Claim C5, as amended.  A step of \<^verbatim>\<open>prepare\<close> after the connectivity wait raises.
  Where floating addresses are not in use and the calls of the teardown to the cloud and
  to the keyring raise nothing, the teardown that follows returns; and whenever that
  teardown returns, \<^verbatim>\<open>prepare\<close> returns normally, no build record refers to the node
  any more, and every record that referred to it and is in state \<open>NEEDS_BUILDING\<close> is,
  with its reference cleared, among the pending builds again.
\<close>

theorem failed_prepare_releases_record:
  assumes "prepare_try w (s\<lparr>db := BuildNode_save (db s) (self\<lparr>bn_state := BOOTING\<rparr>)\<rparr>)
             (self\<lparr>bn_state := BOOTING\<rparr>) build_record = Some (Inl e, s2, self2)"
  shows "(\<not> USE_FLOATING_IPS w \<and>
          (\<forall>k \<ge> tick s2. cloud_call w k = None \<and> (\<exists>out. local_cmd w k = Inr out))
            \<longrightarrow> fst (delete w s2 (instance_of self2)) = Inr ())
       \<and> (fst (delete w s2 (instance_of self2)) = Inr () \<longrightarrow>
            result_of (prepare w s self build_record) = Some (Inr ()) \<and>
            store_of (prepare w s self build_record)
              = Some (db (fst (snd (delete w s2 (instance_of self2))))) \<and>
            (\<forall>r \<in> set (build_records (db (fst (snd (delete w s2 (instance_of self2)))))).
               build_node r \<noteq> Some (bn_name self)) \<and>
            (\<forall>r \<in> set (build_records (db s)).
               build_node r = Some (bn_name self) \<and> br_state r = NEEDS_BUILDING \<longrightarrow>
               r\<lparr>build_node := None\<rparr>
                 \<in> set (pending_builds (db (fst (snd (delete w s2 (instance_of self2))))))))"
proof -
  obtain rd sd od where d: "delete w s2 (instance_of self2) = (rd, sd, od)"
    by (metis prod_cases3)
  have e: "fst (delete w s2 (instance_of self2)) = rd"
    "fst (snd (delete w s2 (instance_of self2))) = sd"
    by (simp_all add: d)
  have p: "prepare w s self build_record = Some (rd, sd, od)"
    using assms d by (simp add: prepare_def Let_def)
  have c1: "\<not> USE_FLOATING_IPS w \<and>
          (\<forall>k \<ge> tick s2. cloud_call w k = None \<and> (\<exists>out. local_cmd w k = Inr out))
            \<longrightarrow> rd = Inr ()"
    using handler_teardown_ok[of w s2 self2] by (simp only: e) blast
  have c2: "rd = Inr () \<longrightarrow>
            result_of (prepare w s self build_record) = Some (Inr ()) \<and>
            store_of (prepare w s self build_record) = Some (db sd) \<and>
            (\<forall>r \<in> set (build_records (db sd)). build_node r \<noteq> Some (bn_name self)) \<and>
            (\<forall>r \<in> set (build_records (db s)).
               build_node r = Some (bn_name self) \<and> br_state r = NEEDS_BUILDING \<longrightarrow>
               r\<lparr>build_node := None\<rparr> \<in> set (pending_builds (db sd)))"
  proof
    assume rd: "rd = Inr ()"
    from handler_teardown[OF assms] d rd
    have td: "db sd = teardown (db s) (bn_name self)" by simp
    have a: "\<forall>r \<in> set (build_records (db sd)). build_node r \<noteq> Some (bn_name self)"
      using teardown_clean[of "db s" "bn_name self"] by (simp only: td) blast
    have b: "\<forall>r \<in> set (build_records (db s)).
               build_node r = Some (bn_name self) \<and> br_state r = NEEDS_BUILDING \<longrightarrow>
               r\<lparr>build_node := None\<rparr> \<in> set (pending_builds (db sd))"
      using cleared_is_pending[of _ "db s" "bn_name self"] by (simp only: td) blast
    have r1: "result_of (prepare w s self build_record) = Some (Inr ())"
      using p rd by (simp add: result_of_def)
    have r2: "store_of (prepare w s self build_record) = Some (db sd)"
      using p by (simp add: store_of_def)
    from r1 r2 a b
    show "result_of (prepare w s self build_record) = Some (Inr ()) \<and>
            store_of (prepare w s self build_record) = Some (db sd) \<and>
            (\<forall>r \<in> set (build_records (db sd)). build_node r \<noteq> Some (bn_name self)) \<and>
            (\<forall>r \<in> set (build_records (db s)).
               build_node r = Some (bn_name self) \<and> br_state r = NEEDS_BUILDING \<longrightarrow>
               r\<lparr>build_node := None\<rparr> \<in> set (pending_builds (db sd)))"
      by (intro conjI)
  qed
  from c1 c2 show ?thesis by (simp only: e)
qed

text \<open>
  The claim as stated fails when the teardown raises.  In \<open>key_never_imported\<close> the key
  is generated on the node, the export fails, the handler deletes the server and then
  fails to delete a key the local keyring never had: \<^verbatim>\<open>delete\<close> raises before it
  clears the references, the record still points at the node, and it is not pending.
\<close>

theorem failed_teardown_keeps_record:
  "USE_FLOATING_IPS key_never_imported = False \<and>
   result_of (prepare key_never_imported (at_start leased) (mk_node ''buildd-7'' NEW '''')
                (mk_record 1 10 NEEDS_BUILDING (Some ''buildd-7'')))
     = Some (Inl (CommandFailed ''gpg --batch --yes --delete-keys'')) \<and>
   map_option build_records
     (store_of (prepare key_never_imported (at_start leased) (mk_node ''buildd-7'' NEW '''')
                (mk_record 1 10 NEEDS_BUILDING (Some ''buildd-7''))))
     = Some [mk_record 1 10 NEEDS_BUILDING (Some ''buildd-7'')] \<and>
   map_option pending_builds
     (store_of (prepare key_never_imported (at_start leased) (mk_node ''buildd-7'' NEW '''')
                (mk_record 1 10 NEEDS_BUILDING (Some ''buildd-7''))))
     = Some []"
  by code_simp

text \<open>
  In \<open>apt_fails\<close> the first command after the wait exits with status 100, and the cloud
  and the keyring answer the teardown: the record the node had claimed is pending again.
\<close>

lemma apt_fails_body:
  "prepare_try apt_fails
     ((at_start leased)\<lparr>db := BuildNode_save (db (at_start leased))
                               ((mk_node ''buildd-7'' NEW '''')\<lparr>bn_state := BOOTING\<rparr>)\<rparr>)
     ((mk_node ''buildd-7'' NEW '''')\<lparr>bn_state := BOOTING\<rparr>)
     (mk_record 1 10 NEEDS_BUILDING (Some ''buildd-7''))
   = Some (Inl (PyException ''Command sudo apt-get update failed''),
           \<lparr>db = leased\<lparr>build_nodes := [mk_node ''buildd-7'' PREPARING '''']\<rparr>,
              tick = 2, slept = 0, logged = [''buildd-7       : '']\<rparr>,
           mk_node ''buildd-7'' PREPARING '''')"
  by code_simp

theorem failed_prepare_releases_record_witness:
  "USE_FLOATING_IPS apt_fails = False \<and>
   result_of (prepare apt_fails (at_start leased) (mk_node ''buildd-7'' NEW '''')
                (mk_record 1 10 NEEDS_BUILDING (Some ''buildd-7''))) = Some (Inr ()) \<and>
   mk_record 1 10 NEEDS_BUILDING None
     \<in> set (pending_builds (db (fst (snd (delete apt_fails
          \<lparr>db = leased\<lparr>build_nodes := [mk_node ''buildd-7'' PREPARING '''']\<rparr>,
             tick = 2, slept = 0, logged = [''buildd-7       : '']\<rparr>
          (instance_of (mk_node ''buildd-7'' PREPARING '''')))))))"
proof -
  let ?r = "mk_record 1 10 NEEDS_BUILDING (Some ''buildd-7'')"
  let ?s2 = "\<lparr>db = leased\<lparr>build_nodes := [mk_node ''buildd-7'' PREPARING '''']\<rparr>,
             tick = 2, slept = 0, logged = [''buildd-7       : '']\<rparr>"
  note t = failed_prepare_releases_record[OF apt_fails_body]
  have f: "\<not> USE_FLOATING_IPS apt_fails"
    by (simp add: apt_fails_def quiet_world_def)
  have ok: "\<forall>k \<ge> tick ?s2. cloud_call apt_fails k = None \<and>
              (\<exists>out. local_cmd apt_fails k = Inr out)"
    by (simp add: apt_fails_def quiet_world_def)
  from t f ok have d: "fst (delete apt_fails ?s2 (instance_of (mk_node ''buildd-7'' PREPARING '''')))
                         = Inr ()"
    by blast
  have m: "?r \<in> set (build_records (db (at_start leased)))"
    by (simp add: at_start_def leased_def)
  have b: "build_node ?r = Some (bn_name (mk_node ''buildd-7'' NEW ''''))"
    "br_state ?r = NEEDS_BUILDING"
    by (simp_all add: mk_record_def mk_node_def)
  from t d have r1: "result_of (prepare apt_fails (at_start leased) (mk_node ''buildd-7'' NEW '''')
                ?r) = Some (Inr ())"
    by blast
  from t d m b have "?r\<lparr>build_node := None\<rparr>
     \<in> set (pending_builds (db (fst (snd (delete apt_fails ?s2
          (instance_of (mk_node ''buildd-7'' PREPARING '''')))))))"
    by blast
  moreover have "?r\<lparr>build_node := None\<rparr> = mk_record 1 10 NEEDS_BUILDING None"
    by (simp add: mk_record_def)
  ultimately show ?thesis using f r1 by simp
qed

section \<open>Verification: the key pair of a lease\<close>
















end
